theory Spec2Isabelle
  imports Main "HOL-Library.Word" "HOL-Library.Sublist" "HOL-Library.Char_ord"
    "HOL-Library.List_Lexorder"
begin

section \<open>The zoekt dynamic index server\<close>

text \<open>
  A shallow embedding of the dynamic index server (package \<^verbatim>\<open>main\<close> of
  \<^verbatim>\<open>zoekt-dynamic-indexserver\<close>, in the version with \<^verbatim>\<open>indexRepository\<close>): the two HTTP
  handlers \<^verbatim>\<open>serveIndex\<close> and \<^verbatim>\<open>serveTruncate\<close>, the pipeline driver
  \<^verbatim>\<open>indexRepository\<close>, the command executor \<^verbatim>\<open>executeCmd\<close> / \<^verbatim>\<open>loggedRun\<close> and
  \<^verbatim>\<open>emptyDirectory\<close>. The Go program is effectful; here every effect is a change of an
  explicit \<open>world\<close> value. What the program calls in the Go standard library (paths,
  the file system, subprocesses, the JSON decoder, the HTTP response writer) is modelled
  in the first subsections; the functions of the program follow, in the order and with
  the branches of the source.
\<close>

subsection \<open>Decimal numbers (strconv.FormatUint, strconv.ParseUint)\<close>

definition digitChar :: "nat \<Rightarrow> char" where
  "digitChar d = ''0123456789'' ! d"

text \<open>\<^verbatim>\<open>strconv.FormatUint(n, 10)\<close>, which is also what \<^verbatim>\<open>%d\<close> prints for an unsigned value.\<close>

fun FormatUint :: "nat \<Rightarrow> string" where
  "FormatUint n =
     (if n < 10 then [digitChar n] else FormatUint (n div 10) @ [digitChar (n mod 10)])"

declare FormatUint.simps [simp del]

definition isDigit :: "char \<Rightarrow> bool" where
  "isDigit c = (c \<in> set ''0123456789'')"

definition digitVal :: "char \<Rightarrow> nat" where
  "digitVal c = (of_char c :: nat) - 48"

definition decimalValue :: "string \<Rightarrow> nat" where
  "decimalValue s = foldl (\<lambda>a c. 10 * a + digitVal c) 0 s"

text \<open>
  \<^verbatim>\<open>strconv.ParseUint(s, 10, 64)\<close> followed by the overflow check of the 32-bit field,
  on the text of a JSON number: only a plain run of digits below \<open>2^32\<close> is accepted
  (a sign, a fraction or an exponent is a type error for an unsigned field).
\<close>

definition ParseUint32 :: "string \<Rightarrow> 32 word option" where
  "ParseUint32 s =
     (if s \<noteq> [] \<and> list_all isDigit s \<and> decimalValue s < 2 ^ 32
      then Some (of_nat (decimalValue s)) else None)"

subsection \<open>Paths (path/filepath on Unix)\<close>

text \<open>The fields of a path between its separators, empty fields included.\<close>

fun pathFields :: "string \<Rightarrow> string list" where
  "pathFields [] = [[]]"
| "pathFields (c # cs) =
     (if c = CHR ''/'' then [] # pathFields cs
      else (case pathFields cs of [] \<Rightarrow> [[c]] | f # fs \<Rightarrow> (c # f) # fs))"

fun joinSep :: "string list \<Rightarrow> string" where
  "joinSep [] = []"
| "joinSep [x] = x"
| "joinSep (x # y # ys) = x @ CHR ''/'' # joinSep (y # ys)"

text \<open>
  One field of a path, applied to the elements kept so far: an empty field and \<open>.\<close> are
  dropped, \<open>..\<close> removes the element before it, is dropped at the root, and is kept at
  the front of a relative path.
\<close>

definition pathStep :: "bool \<Rightarrow> string list \<Rightarrow> string \<Rightarrow> string list" where
  "pathStep rooted st c =
     (if c = [] \<or> c = ''.'' then st
      else if c = ''..'' then
        (if st \<noteq> [] \<and> last st \<noteq> ''..'' then butlast st
         else if rooted then st else st @ [c])
      else st @ [c])"

definition IsAbs :: "string \<Rightarrow> bool" where
  "IsAbs p = (case p of [] \<Rightarrow> False | c # _ \<Rightarrow> c = CHR ''/'')"

text \<open>\<^verbatim>\<open>filepath.Clean\<close>: the shortest path equivalent to \<open>p\<close> by purely lexical rules.\<close>

definition Clean :: "string \<Rightarrow> string" where
  "Clean p =
     (if p = [] then ''.''
      else let cs = foldl (pathStep (IsAbs p)) [] (pathFields p)
           in if IsAbs p then CHR ''/'' # joinSep cs
              else if cs = [] then ''.'' else joinSep cs)"

text \<open>\<^verbatim>\<open>filepath.Join\<close> of two elements: empty elements are ignored, the result is cleaned.\<close>

definition Join :: "string \<Rightarrow> string \<Rightarrow> string" where
  "Join a b =
     (if a \<noteq> [] then Clean (a @ CHR ''/'' # b)
      else if b \<noteq> [] then Clean b else [])"

datatype errno = ENOENT | ENOTDIR | EBUSY | EINVAL

text \<open>
  The working directory of the server process is the list of its path elements, or
  \<open>None\<close> when it cannot be determined (the directory was unlinked): then
  \<^verbatim>\<open>os.Getwd\<close> fails, and with it \<^verbatim>\<open>filepath.Abs\<close> of every relative path.
\<close>

definition Getwd :: "string list option \<Rightarrow> errno + string" where
  "Getwd wd = (case wd of None \<Rightarrow> Inl ENOENT | Some cs \<Rightarrow> Inr (CHR ''/'' # joinSep cs))"

definition Abs :: "string list option \<Rightarrow> string \<Rightarrow> errno + string" where
  "Abs wd p =
     (if IsAbs p then Inr (Clean p)
      else (case Getwd wd of Inl err \<Rightarrow> Inl err | Inr d \<Rightarrow> Inr (Join d p)))"

subsection \<open>The world: clock, file system, log and the traces of what was called\<close>

text \<open>
  A file system is the list of its entries below the root. An entry is located by the
  path elements from the root; \<open>busy\<close> marks an entry that cannot be unlinked (a mount
  point, say). The root itself always exists and is a directory.
\<close>

record entry =
  loc :: "string list"
  isDir :: bool
  busy :: bool

text \<open>A cancellation scope of package context, reduced to its deadline.\<close>

record Context =
  deadline :: int

text \<open>\<^verbatim>\<open>exec.Cmd\<close>: the scope the command runs under and its argument vector (program first).\<close>

record Cmd =
  cmdCtx :: Context
  Args :: "string list"

datatype runError = StartFailed | ContextDone | Killed | ExitStatus nat

datatype decodeError = SyntaxError | UnknownField string | TypeError string

datatype fsCall = CallReadDir string | CallRemoveAll string

datatype logLine =
    LogRun "string list"
  | LogCommandFailed "string list" runError string string
  | LogDecodeError decodeError
  | LogRepoPathError errno
  | LogTruncateRepoDir string errno
  | LogTruncateIndexDir string errno

text \<open>
  \<open>clock\<close> is logical time in nanoseconds. \<open>logs\<close> is the process log. \<open>calls\<close>,
  \<open>spawned\<close> and \<open>fsCalls\<close> are traces kept for the statements below: the commands
  handed to \<^verbatim>\<open>executeCmd\<close>, the subprocesses really started (with their start time),
  and the file system calls made.
\<close>

record world =
  clock :: int
  cwd :: "string list option"
  files :: "entry list"
  logs :: "logLine list"
  calls :: "Cmd list"
  spawned :: "(string list \<times> int) list"
  fsCalls :: "fsCall list"

definition logPrintf :: "logLine \<Rightarrow> world \<Rightarrow> world" where
  "logPrintf l w = w\<lparr>logs := logs w @ [l]\<rparr>"

subsection \<open>The file system calls (ioutil.ReadDir, os.RemoveAll)\<close>

definition existsAt :: "entry list \<Rightarrow> string list \<Rightarrow> bool" where
  "existsAt fs d = (d = [] \<or> (\<exists>e \<in> set fs. loc e = d))"

definition isDirAt :: "entry list \<Rightarrow> string list \<Rightarrow> bool" where
  "isDirAt fs d = (d = [] \<or> (\<exists>e \<in> set fs. loc e = d \<and> isDir e))"

definition childNames :: "entry list \<Rightarrow> string list \<Rightarrow> string list" where
  "childNames fs d = map (\<lambda>e. last (loc e)) (filter (\<lambda>e. loc e \<noteq> [] \<and> butlast (loc e) = d) fs)"

text \<open>
  Where a path leads. The system resolves a path element by element, as it stands in
  the path: the place reached so far must exist and be a directory before the next
  element is taken, an empty element and \<open>.\<close> stay there, \<open>..\<close> leads to the directory
  above (at the root, to the root), and a name must exist in the directory. So a path
  that crosses a missing directory fails with \<open>ENOENT\<close> and one that runs through a
  file with \<open>ENOTDIR\<close>, whatever \<open>..\<close> may follow. There are no symbolic links in the
  model.
\<close>

fun walk :: "entry list \<Rightarrow> string list \<Rightarrow> string list \<Rightarrow> errno + string list" where
  "walk fs cur [] = Inr cur"
| "walk fs cur (c # cs) =
     (if \<not> existsAt fs cur then Inl ENOENT
      else if \<not> isDirAt fs cur then Inl ENOTDIR
      else if c = [] \<or> c = ''.'' then walk fs cur cs
      else if c = ''..'' then walk fs (butlast cur) cs
      else if existsAt fs (cur @ [c]) then walk fs (cur @ [c]) cs
      else Inl ENOENT)"

text \<open>
  An absolute path is resolved from the root, a relative one from the working
  directory. The empty path leads nowhere, and so does a relative path when the working
  directory is gone. (Once a directory has been removed, POSIX lets a system drop its
  \<open>..\<close> entry, and systems differ in whether \<open>..\<close> still resolves from there; the
  statements about \<^verbatim>\<open>emptyDirectory\<close> below keep to runs that leave the working directory
  of a relative path in place.)
\<close>

definition resolve :: "entry list \<Rightarrow> string list option \<Rightarrow> string \<Rightarrow> errno + string list" where
  "resolve fs wd p =
     (if p = [] then Inl ENOENT
      else if IsAbs p then walk fs [] (pathFields p)
      else case wd of None \<Rightarrow> Inl ENOENT | Some c \<Rightarrow> walk fs c (pathFields p))"

text \<open>
  The places a resolution stands at on its way, the first and the last included: each of
  them has to be there for the path to resolve. They depend on the path alone, not on
  the file system.
\<close>

fun places :: "string list \<Rightarrow> string list \<Rightarrow> string list list" where
  "places cur [] = [cur]"
| "places cur (c # cs) =
     cur # places (if c = [] \<or> c = ''.'' then cur
                   else if c = ''..'' then butlast cur
                   else cur @ [c]) cs"

definition passes :: "string list option \<Rightarrow> string \<Rightarrow> string list list" where
  "passes wd p =
     (if p = [] then []
      else if IsAbs p then places [] (pathFields p)
      else case wd of None \<Rightarrow> [] | Some c \<Rightarrow> places c (pathFields p))"

text \<open>
  \<^verbatim>\<open>ioutil.ReadDir\<close>: the names in the directory, sorted; the error of the resolution when the
  path does not resolve, and \<open>ENOTDIR\<close> when it leads to a file.
\<close>

definition ReadDir :: "string \<Rightarrow> world \<Rightarrow> (errno + string list) \<times> world" where
  "ReadDir dir w =
     (let w' = w\<lparr>fsCalls := fsCalls w @ [CallReadDir dir]\<rparr>
      in case resolve (files w) (cwd w) dir of
           Inl err \<Rightarrow> (Inl err, w')
         | Inr d \<Rightarrow>
             if isDirAt (files w) d then (Inr (sort (childNames (files w) d)), w')
             else if existsAt (files w) d then (Inl ENOTDIR, w')
             else (Inl ENOENT, w'))"

text \<open>An entry that cannot be unlinked lies at or below \<open>q\<close>.\<close>

definition blocked :: "entry list \<Rightarrow> string list \<Rightarrow> bool" where
  "blocked fs q = (\<exists>b \<in> set fs. busy b \<and> prefix q (loc b))"

text \<open>
  \<^verbatim>\<open>os.RemoveAll\<close>. The empty path and a path that leads to nothing are no error, and
  nothing is removed; a path that ends in \<open>.\<close> is refused; any other failure of the
  resolution is returned. Otherwise the entry and everything below it are removed. It
  removes what it can: what stays is every entry that cannot be unlinked, with the
  directories above it, and then the error is returned. When the working directory is
  among what is removed, it is gone. (The program calls \<^verbatim>\<open>os.RemoveAll\<close> on joined, hence
  clean, paths only: such a path never ends in \<open>..\<close>, a case that is not told apart
  here.)
\<close>

definition RemoveAll :: "string \<Rightarrow> world \<Rightarrow> errno option \<times> world" where
  "RemoveAll p w =
     (let w' = w\<lparr>fsCalls := fsCalls w @ [CallRemoveAll p]\<rparr>
      in if p = [] then (None, w')
         else if last (pathFields p) = ''.'' then (Some EINVAL, w')
         else case resolve (files w) (cwd w) p of
           Inl err \<Rightarrow> (if err = ENOENT then None else Some err, w')
         | Inr q \<Rightarrow>
             (if q = [] \<or> blocked (files w) q then Some EBUSY else None,
              w'\<lparr>files := filter (\<lambda>e. \<not> prefix q (loc e) \<or> blocked (files w) (loc e)) (files w),
                 cwd := (case cwd w of
                           None \<Rightarrow> None
                         | Some c \<Rightarrow>
                             if c \<noteq> [] \<and> prefix q c \<and> \<not> blocked (files w) c then None
                             else Some c)\<rparr>))"

text \<open>
  The names a directory can hold, and the file systems there can be: every entry has a
  location made of such names, and lies in a directory of the file system.
\<close>

definition plainName :: "string \<Rightarrow> bool" where
  "plainName n = (n \<noteq> [] \<and> n \<noteq> ''.'' \<and> n \<noteq> ''..'' \<and> CHR ''/'' \<notin> set n)"

definition wellFormed :: "entry list \<Rightarrow> bool" where
  "wellFormed fs =
     (\<forall>e \<in> set fs. loc e \<noteq> [] \<and> (\<forall>n \<in> set (loc e). plainName n) \<and> isDirAt fs (butlast (loc e)))"

text \<open>An entry that cannot be unlinked lies strictly below \<open>d\<close>.\<close>

definition busyBelow :: "entry list \<Rightarrow> string list \<Rightarrow> bool" where
  "busyBelow fs d = (\<exists>b \<in> set fs. busy b \<and> strict_prefix d (loc b))"

subsection \<open>Subprocesses (os/exec under a context)\<close>

text \<open>
  What an external program does is not part of this program: it is a parameter, a
  function from the command and the world it starts in to an outcome. Every statement
  below holds for every such function.
\<close>

record outcome =
  notFound :: bool
  elapsed :: nat
  exitCode :: nat
  outText :: string
  errText :: string
  filesAfter :: "entry list"

type_synonym processes = "Cmd \<Rightarrow> world \<Rightarrow> outcome"

text \<open>\<^verbatim>\<open>context.WithTimeout(context.Background(), d)\<close> at time \<open>now\<close>.\<close>

definition WithTimeout :: "int \<Rightarrow> int \<Rightarrow> Context" where
  "WithTimeout now d = \<lparr>deadline = now + d\<rparr>"

definition CommandContext :: "Context \<Rightarrow> string \<Rightarrow> string list \<Rightarrow> Cmd" where
  "CommandContext c name arg = \<lparr>cmdCtx = c, Args = name # arg\<rparr>"

text \<open>
  \<^verbatim>\<open>cmd.Run\<close>: an executable that is not found and a scope that is already done are
  errors of the start, and no process exists. A started process runs until it exits or
  until the deadline of its scope, at which it is killed. The result is the error, if
  any, and the captured standard output and standard error.
\<close>

definition Run :: "processes \<Rightarrow> Cmd \<Rightarrow> world \<Rightarrow> (runError option \<times> string \<times> string) \<times> world" where
  "Run ps cmd w =
     (let r = ps cmd w; d = deadline (cmdCtx cmd)
      in if notFound r then ((Some StartFailed, [], []), w)
         else if d \<le> clock w then ((Some ContextDone, [], []), w)
         else
           let w' = w\<lparr>files := filesAfter r, spawned := spawned w @ [(Args cmd, clock w)]\<rparr>
           in if d \<le> clock w + int (elapsed r)
              then ((Some Killed, outText r, errText r), w'\<lparr>clock := d\<rparr>)
              else ((if exitCode r = 0 then None else Some (ExitStatus (exitCode r)),
                     outText r, errText r),
                    w'\<lparr>clock := clock w + int (elapsed r)\<rparr>))"

subsection \<open>The JSON decoder (encoding/json with DisallowUnknownFields)\<close>

datatype json =
    JNull
  | JBool bool
  | JNumber string
  | JString string
  | JArray "json list"
  | JObject "(string \<times> json) list"

text \<open>
  The body of a request as the decoder's scanner reads it: no JSON value (an empty body
  or a syntax error), or the first JSON value of the body. A number carries its text.
\<close>

datatype body = Malformed | Value json

record indexRequest =
  CloneURL :: string
  RepoID :: "32 word"

definition toLower :: "char \<Rightarrow> char" where
  "toLower c =
     (case map_of (zip ''ABCDEFGHIJKLMNOPQRSTUVWXYZ'' ''abcdefghijklmnopqrstuvwxyz'') c of
        None \<Rightarrow> c | Some l \<Rightarrow> l)"

text \<open>The decoder keeps the first error and goes on reading.\<close>

definition saveError :: "decodeError option \<Rightarrow> decodeError \<Rightarrow> decodeError option" where
  "saveError saved err = (case saved of None \<Rightarrow> Some err | Some _ \<Rightarrow> saved)"

text \<open>
  The field of \<^verbatim>\<open>indexRequest\<close> that a key of the object selects: the names are compared
  with letter case ignored.
\<close>

datatype field = FieldCloneURL | FieldRepoID

definition findField :: "string \<Rightarrow> field option" where
  "findField key =
     (if map toLower key = ''cloneurl'' then Some FieldCloneURL
      else if map toLower key = ''repoid'' then Some FieldRepoID
      else None)"

text \<open>
  One member of the object: \<open>null\<close> leaves the selected field as it is; a value of
  another type than the field's is a type error; a key that selects no field is an
  error because unknown fields are disallowed.
\<close>

definition decodeMember ::
  "indexRequest \<times> decodeError option \<Rightarrow> string \<times> json \<Rightarrow> indexRequest \<times> decodeError option" where
  "decodeMember st m =
     (case st of (req, saved) \<Rightarrow> case m of (key, v) \<Rightarrow>
        case findField key of
          None \<Rightarrow> (req, saveError saved (UnknownField key))
        | Some FieldCloneURL \<Rightarrow>
            (case v of
               JString s \<Rightarrow> (req\<lparr>CloneURL := s\<rparr>, saved)
             | JNull \<Rightarrow> (req, saved)
             | _ \<Rightarrow> (req, saveError saved (TypeError ''CloneURL'')))
        | Some FieldRepoID \<Rightarrow>
            (case v of
               JNumber lit \<Rightarrow>
                 (case ParseUint32 lit of
                    Some n \<Rightarrow> (req\<lparr>RepoID := n\<rparr>, saved)
                  | None \<Rightarrow> (req, saveError saved (TypeError ''RepoID'')))
             | JNull \<Rightarrow> (req, saved)
             | _ \<Rightarrow> (req, saveError saved (TypeError ''RepoID''))))"

text \<open>A member that decodes without an error.\<close>

definition acceptedMember :: "string \<times> json \<Rightarrow> bool" where
  "acceptedMember m =
     (case m of (key, v) \<Rightarrow>
        case findField key of
          None \<Rightarrow> False
        | Some FieldCloneURL \<Rightarrow> (case v of JString s \<Rightarrow> True | JNull \<Rightarrow> True | _ \<Rightarrow> False)
        | Some FieldRepoID \<Rightarrow>
            (case v of JNumber lit \<Rightarrow> ParseUint32 lit \<noteq> None | JNull \<Rightarrow> True | _ \<Rightarrow> False))"

definition selects :: "field \<Rightarrow> string \<times> json \<Rightarrow> bool" where
  "selects f m = (findField (fst m) = Some f)"

text \<open>
  \<^verbatim>\<open>dec.Decode(&req)\<close> into the zero value of \<^verbatim>\<open>indexRequest\<close>: an object is decoded
  member by member, \<open>null\<close> decodes to the untouched zero value, anything else is a
  type error.
\<close>

definition Decode :: "body \<Rightarrow> decodeError + indexRequest" where
  "Decode b =
     (case b of
        Malformed \<Rightarrow> Inl SyntaxError
      | Value v \<Rightarrow>
          (case v of
             JObject ms \<Rightarrow>
               (case foldl decodeMember (\<lparr>CloneURL = [], RepoID = 0\<rparr>, None) ms of
                  (req, None) \<Rightarrow> Inr req
                | (req, Some err) \<Rightarrow> Inl err)
           | JNull \<Rightarrow> Inr \<lparr>CloneURL = [], RepoID = 0\<rparr>
           | _ \<Rightarrow> Inl (TypeError [])))"

subsection \<open>HTTP requests and the response writer\<close>

record Request =
  Method :: string
  URLPath :: string
  Body :: body

text \<open>
  A response writer is the list of the \<^verbatim>\<open>http.Error(w, message, code)\<close> calls made on
  it. The first call fixes the status; a handler that returns without any call has
  answered 200 with an empty body.
\<close>

type_synonym ResponseWriter = "(string \<times> nat) list"

definition httpError :: "ResponseWriter \<Rightarrow> string \<Rightarrow> nat \<Rightarrow> ResponseWriter" where
  "httpError rw msg code = rw @ [(msg, code)]"

definition status :: "ResponseWriter \<Rightarrow> nat" where
  "status rw = (case rw of [] \<Rightarrow> 200 | (msg, code) # _ \<Rightarrow> code)"

definition replyBody :: "ResponseWriter \<Rightarrow> string" where
  "replyBody rw = concat (map fst rw)"

subsection \<open>The program\<close>

record Options =
  indexTimeout :: int
  dataDir :: string
  indexDir :: string
  repoDir :: string
  listen :: string

text \<open>\<^verbatim>\<open>loggedRun\<close>: log the command, run it, log a failure; the captured output is returned.\<close>

definition loggedRun :: "processes \<Rightarrow> Cmd \<Rightarrow> world \<Rightarrow> (string \<times> string) \<times> world" where
  "loggedRun ps cmd w =
     (let w1 = logPrintf (LogRun (Args cmd)) w
      in case Run ps cmd w1 of
           ((Some err, out, errOut), w2) \<Rightarrow>
             ((out, errOut), logPrintf (LogCommandFailed (Args cmd) err out errOut) w2)
         | ((None, out, errOut), w2) \<Rightarrow> ((out, errOut), w2))"

text \<open>
  \<^verbatim>\<open>executeCmd\<close>: build the command under the scope and run it logged. Nothing is
  returned to the caller but the changed world.
\<close>

definition executeCmd :: "processes \<Rightarrow> Context \<Rightarrow> string \<Rightarrow> string list \<Rightarrow> world \<Rightarrow> world" where
  "executeCmd ps c name arg w =
     (let cmd = CommandContext c name arg
      in snd (loggedRun ps cmd (w\<lparr>calls := calls w @ [cmd]\<rparr>)))"

text \<open>The name of the bare repository, \<^verbatim>\<open>fmt.Sprintf("%d.git", req.RepoID)\<close>.\<close>

definition gitDirName :: "indexRequest \<Rightarrow> string" where
  "gitDirName req = FormatUint (unat (RepoID req)) @ ''.git''"

text \<open>
  \<^verbatim>\<open>indexRepository\<close>: one scope for the whole run, then clone, path, fetch, index. The
  deferred \<^verbatim>\<open>cancel\<close> releases the scope at the end and changes nothing that is modelled.
\<close>

definition indexRepository ::
  "processes \<Rightarrow> Options \<Rightarrow> indexRequest \<Rightarrow> world \<Rightarrow> ResponseWriter \<Rightarrow> world \<times> ResponseWriter" where
  "indexRepository ps opts req w rw =
     (let c = WithTimeout (clock w) (indexTimeout opts);
          args = [] @ [''-dest'', repoDir opts]
                    @ [''-name'', FormatUint (unat (RepoID req))]
                    @ [''-repoid'', FormatUint (unat (RepoID req))]
                    @ [CloneURL req];
          w1 = executeCmd ps c ''zoekt-git-clone'' args w
      in case Abs (cwd w1) (Join (repoDir opts) (gitDirName req)) of
           Inl err \<Rightarrow>
             (logPrintf (LogRepoPathError err) w1, httpError rw ''JSON parser error'' 400)
         | Inr gitRepoPath \<Rightarrow>
             let w2 = executeCmd ps c ''git'' [''-C'', gitRepoPath, ''fetch''] w1;
                 w3 = executeCmd ps c ''zoekt-git-index'' [''-index'', indexDir opts, gitRepoPath] w2
             in (w3, rw))"

definition serveIndex ::
  "processes \<Rightarrow> Options \<Rightarrow> Request \<Rightarrow> world \<Rightarrow> ResponseWriter \<Rightarrow> world \<times> ResponseWriter" where
  "serveIndex ps opts r w rw =
     (case Decode (Body r) of
        Inl err \<Rightarrow> (logPrintf (LogDecodeError err) w, httpError rw ''JSON parser error'' 400)
      | Inr req \<Rightarrow> indexRepository ps opts req w rw)"

text \<open>The loop of \<^verbatim>\<open>emptyDirectory\<close> over the listed names: the first failed removal ends it.\<close>

fun removeEach :: "string \<Rightarrow> string list \<Rightarrow> world \<Rightarrow> errno option \<times> world" where
  "removeEach dir [] w = (None, w)"
| "removeEach dir (file # rest) w =
     (case RemoveAll (Join dir file) w of
        (Some err, w') \<Rightarrow> (Some err, w')
      | (None, w') \<Rightarrow> removeEach dir rest w')"

definition emptyDirectory :: "string \<Rightarrow> world \<Rightarrow> errno option \<times> world" where
  "emptyDirectory dir w =
     (case ReadDir dir w of
        (Inl err, w') \<Rightarrow> (Some err, w')
      | (Inr names, w') \<Rightarrow> removeEach dir names w')"

definition serveTruncate ::
  "Options \<Rightarrow> Request \<Rightarrow> world \<Rightarrow> ResponseWriter \<Rightarrow> world \<times> ResponseWriter" where
  "serveTruncate opts r w rw =
     (case emptyDirectory (repoDir opts) w of
        (Some err, w1) \<Rightarrow>
          (logPrintf (LogTruncateRepoDir (repoDir opts) err) w1,
           httpError rw ''Failed to delete repoDir'' 500)
      | (None, w1) \<Rightarrow>
          (case emptyDirectory (indexDir opts) w1 of
             (Some err, w2) \<Rightarrow>
               (logPrintf (LogTruncateIndexDir (repoDir opts) err) w2,
                httpError rw ''Failed to delete indexDir'' 500)
           | (None, w2) \<Rightarrow> (w2, rw)))"

text \<open>
  \<^verbatim>\<open>startIndexingApi\<close> registers the two handlers by path alone; this is what the
  server does with one request, on a fresh response writer. Any other path is answered
  by the default handler.
\<close>

definition startIndexingApi :: "processes \<Rightarrow> Options \<Rightarrow> Request \<Rightarrow> world \<Rightarrow> world \<times> ResponseWriter" where
  "startIndexingApi ps opts r w =
     (if URLPath r = ''/index'' then serveIndex ps opts r w []
      else if URLPath r = ''/truncate'' then serveTruncate opts r w []
      else (w, httpError [] ''404 page not found'' 404))"

text \<open>
  \<^verbatim>\<open>parseOptions\<close> on the parsed flags; \<open>None\<close> is the fatal exit when no data directory
  is given.
\<close>

record Flags =
  data_dir :: string
  index_dir :: string
  index_timeout :: int
  listen_addr :: string

definition parseOptions :: "Flags \<Rightarrow> Options option" where
  "parseOptions fl =
     (if data_dir fl = [] then None
      else let indexDir = (if index_dir fl = [] then Join (data_dir fl) ''index'' else index_dir fl)
           in Some \<lparr>indexTimeout = index_timeout fl, dataDir = data_dir fl, indexDir = indexDir,
                    repoDir = Join (data_dir fl) ''repos'', listen = listen_addr fl\<rparr>)"

subsection \<open>Notions used in the proofs\<close>

text \<open>
  Two classes of path elements used in the proofs about \<^verbatim>\<open>Clean\<close>: the elements a cleaned
  relative path keeps, and those that are names.
\<close>

definition kept :: "string \<Rightarrow> bool" where
  "kept n = (n \<noteq> [] \<and> n \<noteq> ''.'')"

definition proper :: "string \<Rightarrow> bool" where
  "proper n = (n \<noteq> [] \<and> n \<noteq> ''.'' \<and> n \<noteq> ''..'')"

text \<open>
  The place a path names by the lexical rules of \<^verbatim>\<open>Clean\<close> alone, without a look at the
  file system. Where \<open>resolve\<close> succeeds in a well-formed file system it ends at this
  place (lemma \<open>resolve_lexical\<close> below); it fails where the path crosses what is not
  there.
\<close>

definition lexical :: "string list option \<Rightarrow> string \<Rightarrow> string list option" where
  "lexical wd p =
     (if p = [] then None
      else if IsAbs p then Some (foldl (pathStep True) [] (pathFields p))
      else map_option (\<lambda>d. foldl (pathStep True) d (pathFields p)) wd)"

text \<open>
  The situation during a run of \<^verbatim>\<open>emptyDirectory\<close> on the path \<open>dir\<close>: the path names the
  directory \<open>d\<close> of a well-formed file system; the working directory is not inside \<open>d\<close>,
  and it is in place if the path is relative.
\<close>

definition reaches :: "entry list \<Rightarrow> string list option \<Rightarrow> string \<Rightarrow> string list \<Rightarrow> bool" where
  "reaches fs wd dir d =
     (wellFormed fs \<and> lexical wd dir = Some d \<and> isDirAt fs d \<and>
      (IsAbs dir \<or> (\<exists>c. wd = Some c \<and> isDirAt fs c)) \<and>
      (\<forall>c. wd = Some c \<longrightarrow> \<not> strict_prefix d c))"

text \<open>
  What a run under the deadline \<open>D\<close> may do to the clock and to the list of started
  subprocesses, from world \<open>w\<close> to world \<open>w'\<close>.
\<close>

definition within :: "int \<Rightarrow> world \<Rightarrow> world \<Rightarrow> bool" where
  "within D w w' =
     ((\<exists>started. spawned w' = spawned w @ started \<and> (\<forall>s \<in> set started. snd s < D)) \<and>
      clock w \<le> clock w' \<and> clock w' \<le> max (clock w) D)"

subsection \<open>Example inputs\<close>

text \<open>
  Behaviours of the external programs (none can be started; each takes one time unit;
  each takes five; each fails with exit code 128 and some output), configurations,
  requests and worlds used as concrete inputs below.
  \<open>exampleOptions\<close> and \<open>exampleRequest\<close> are the example of the specification.
\<close>

definition noProgram :: processes where
  "noProgram cmd w = \<lparr>notFound = True, elapsed = 0, exitCode = 0, outText = [], errText = [],
     filesAfter = files w\<rparr>"

definition quickProgram :: processes where
  "quickProgram cmd w = \<lparr>notFound = False, elapsed = 1, exitCode = 0, outText = [], errText = [],
     filesAfter = files w\<rparr>"

definition exampleOptions :: Options where
  "exampleOptions = \<lparr>indexTimeout = 3600000000000, dataDir = ''/'', indexDir = ''/index_dir'',
     repoDir = ''/repo_dir'', listen = '':6060''\<rparr>"

definition exampleRequest :: indexRequest where
  "exampleRequest = \<lparr>CloneURL = ''https://example.com/repository.git'', RepoID = 100\<rparr>"

definition bootWorld :: world where
  "bootWorld = \<lparr>clock = 0, cwd = None, files = [], logs = [], calls = [], spawned = [], fsCalls = []\<rparr>"

definition relativeOptions :: Options where
  "relativeOptions = \<lparr>indexTimeout = 3600000000000, dataDir = ''data'', indexDir = ''data/index'',
     repoDir = ''data/repos'', listen = '':6060''\<rparr>"

definition emptyObjectPost :: Request where
  "emptyObjectPost = \<lparr>Method = ''POST'', URLPath = ''/index'', Body = Value (JObject [])\<rparr>"

definition nullPost :: Request where
  "nullPost = \<lparr>Method = ''POST'', URLPath = ''/index'', Body = Value JNull\<rparr>"

definition extraFieldPost :: Request where
  "extraFieldPost = \<lparr>Method = ''POST'', URLPath = ''/index'',
     Body = Value (JObject [(''CloneURL'', JString ''https://example.com/repository.git''),
                            (''RepoID'', JNumber ''100''), (''Branch'', JString ''main'')])\<rparr>"

definition exampleIndexPost :: Request where
  "exampleIndexPost = \<lparr>Method = ''POST'', URLPath = ''/index'',
     Body = Value (JObject [(''CloneURL'', JString ''https://example.com/repository.git''),
                            (''RepoID'', JNumber ''100'')])\<rparr>"

definition sampleWorld :: world where
  "sampleWorld = \<lparr>clock = 0, cwd = Some [],
     files = [\<lparr>loc = [''data''], isDir = True, busy = False\<rparr>,
              \<lparr>loc = [''data'', ''b''], isDir = False, busy = False\<rparr>,
              \<lparr>loc = [''data'', ''c''], isDir = True, busy = False\<rparr>,
              \<lparr>loc = [''data'', ''c'', ''d''], isDir = False, busy = False\<rparr>,
              \<lparr>loc = [''data'', ''a''], isDir = False, busy = False\<rparr>,
              \<lparr>loc = [''mnt''], isDir = True, busy = False\<rparr>,
              \<lparr>loc = [''mnt'', ''a''], isDir = True, busy = False\<rparr>,
              \<lparr>loc = [''mnt'', ''a'', ''x''], isDir = False, busy = False\<rparr>,
              \<lparr>loc = [''mnt'', ''b''], isDir = True, busy = False\<rparr>,
              \<lparr>loc = [''mnt'', ''b'', ''x''], isDir = False, busy = False\<rparr>,
              \<lparr>loc = [''mnt'', ''b'', ''y''], isDir = True, busy = True\<rparr>,
              \<lparr>loc = [''mnt'', ''c''], isDir = False, busy = False\<rparr>],
     logs = [], calls = [], spawned = [], fsCalls = []\<rparr>"

definition truncatePost :: Request where
  "truncatePost = \<lparr>Method = ''POST'', URLPath = ''/truncate'', Body = Malformed\<rparr>"

definition mountedOptions :: Options where
  "mountedOptions = \<lparr>indexTimeout = 3600000000000, dataDir = ''/'', indexDir = ''/data'',
     repoDir = ''/mnt'', listen = '':6060''\<rparr>"

definition nestedOptions :: Options where
  "nestedOptions = \<lparr>indexTimeout = 3600000000000, dataDir = ''/data'', indexDir = ''/data'',
     repoDir = ''/data/repos'', listen = '':6060''\<rparr>"

definition nestedWorld :: world where
  "nestedWorld = \<lparr>clock = 0, cwd = Some [],
     files = [\<lparr>loc = [''data''], isDir = True, busy = False\<rparr>,
              \<lparr>loc = [''data'', ''repos''], isDir = True, busy = False\<rparr>,
              \<lparr>loc = [''data'', ''repos'', ''100.git''], isDir = True, busy = False\<rparr>,
              \<lparr>loc = [''data'', ''shard''], isDir = False, busy = False\<rparr>],
     logs = [], calls = [], spawned = [], fsCalls = []\<rparr>"

definition defaultOptions :: Options where
  "defaultOptions = \<lparr>indexTimeout = 3600000000000, dataDir = ''/data'', indexDir = ''/data/index'',
     repoDir = ''/data/repos'', listen = '':6060''\<rparr>"

definition defaultWorld :: world where
  "defaultWorld = \<lparr>clock = 0, cwd = Some [],
     files = [\<lparr>loc = [''data''], isDir = True, busy = False\<rparr>,
              \<lparr>loc = [''data'', ''repos''], isDir = True, busy = False\<rparr>,
              \<lparr>loc = [''data'', ''repos'', ''100.git''], isDir = True, busy = False\<rparr>,
              \<lparr>loc = [''data'', ''index''], isDir = True, busy = False\<rparr>,
              \<lparr>loc = [''data'', ''index'', ''shard''], isDir = False, busy = False\<rparr>],
     logs = [], calls = [], spawned = [], fsCalls = []\<rparr>"

definition slowProgram :: processes where
  "slowProgram cmd w = \<lparr>notFound = False, elapsed = 5, exitCode = 0, outText = [], errText = [],
     filesAfter = files w\<rparr>"

definition shortOptions :: Options where
  "shortOptions = \<lparr>indexTimeout = 7, dataDir = ''/'', indexDir = ''/index_dir'',
     repoDir = ''/repo_dir'', listen = '':6060''\<rparr>"

definition failingProgram :: processes where
  "failingProgram cmd w = \<lparr>notFound = False, elapsed = 1, exitCode = 128,
     outText = ''Fetching origin'', errText = ''fatal: repository not found'',
     filesAfter = files w\<rparr>"

definition crossingOptions :: Options where
  "crossingOptions = \<lparr>indexTimeout = 3600000000000, dataDir = ''/data'',
     indexDir = ''/data/index/sub/..'', repoDir = ''/data/repos'', listen = '':6060''\<rparr>"

definition crossingWorld :: world where
  "crossingWorld = \<lparr>clock = 0, cwd = Some [],
     files = [\<lparr>loc = [''data''], isDir = True, busy = False\<rparr>,
              \<lparr>loc = [''data'', ''repos''], isDir = True, busy = False\<rparr>,
              \<lparr>loc = [''data'', ''repos'', ''100.git''], isDir = True, busy = False\<rparr>,
              \<lparr>loc = [''data'', ''index''], isDir = True, busy = False\<rparr>,
              \<lparr>loc = [''data'', ''index'', ''shard''], isDir = False, busy = False\<rparr>,
              \<lparr>loc = [''data'', ''index'', ''sub''], isDir = True, busy = False\<rparr>],
     logs = [], calls = [], spawned = [], fsCalls = []\<rparr>"

section \<open>Paths\<close>

lemma pathFields_nonempty: "pathFields s \<noteq> []"
  by (induction s) (auto split: list.splits)

lemma pathFields_append_slash: "pathFields (a @ CHR ''/'' # b) = pathFields a @ pathFields b"
  by (induction a) (auto simp: pathFields_nonempty split: list.splits)

lemma pathFields_no_slash: "f \<in> set (pathFields s) \<Longrightarrow> CHR ''/'' \<notin> set f"
  by (induction s arbitrary: f) (auto split: if_splits list.splits)

lemma pathFields_plain: "CHR ''/'' \<notin> set s \<Longrightarrow> pathFields s = [s]"
  by (induction s) auto

lemma pathFields_joinSep:
  "xs \<noteq> [] \<Longrightarrow> \<forall>x \<in> set xs. CHR ''/'' \<notin> set x \<Longrightarrow> pathFields (joinSep xs) = xs"
  by (induction xs rule: joinSep.induct) (auto simp: pathFields_plain pathFields_append_slash)

lemma pathStep_plain: "n \<noteq> [] \<Longrightarrow> n \<noteq> ''.'' \<Longrightarrow> n \<noteq> ''..'' \<Longrightarrow> pathStep r st n = st @ [n]"
  by (simp add: pathStep_def)

lemma foldl_pathStep_proper: "\<forall>x \<in> set cs. proper x \<Longrightarrow> foldl (pathStep r) st cs = st @ cs"
  by (induction cs arbitrary: st) (auto simp: pathStep_plain proper_def)

lemma foldl_invariant:
  "P st \<Longrightarrow> (\<And>s c. P s \<Longrightarrow> c \<in> set cs \<Longrightarrow> P (f s c)) \<Longrightarrow> P (foldl f st cs)"
  by (induction cs arbitrary: st) simp_all

lemma pathStep_subset: "set (pathStep r st c) \<subseteq> insert c (set st)"
  by (auto simp: pathStep_def dest: in_set_butlastD)

lemma pathStep_True_subset: "set (pathStep True st c) \<subseteq> (if proper c then {c} else {}) \<union> set st"
  by (auto simp: pathStep_def proper_def dest: in_set_butlastD)

lemma pathStep_kept_subset: "set (pathStep r st c) \<subseteq> (if kept c then {c} else {}) \<union> set st"
  by (auto simp: pathStep_def kept_def dest: in_set_butlastD)

lemma foldl_pathStep_True_proper:
  assumes "\<forall>x \<in> set st. proper x"
  shows "\<forall>x \<in> set (foldl (pathStep True) st cs). proper x"
proof (rule foldl_invariant [where P = "\<lambda>s. \<forall>x \<in> set s. proper x"])
  show "\<forall>x \<in> set st. proper x" by (rule assms)
next
  fix s c assume "\<forall>x \<in> set s. proper x"
  then show "\<forall>x \<in> set (pathStep True s c). proper x"
    using pathStep_True_subset [of s c] by (auto split: if_splits)
qed

lemma foldl_pathStep_no_slash:
  assumes "\<forall>x \<in> set st. CHR ''/'' \<notin> set x" and cs: "\<forall>c \<in> set cs. CHR ''/'' \<notin> set c"
  shows "\<forall>x \<in> set (foldl (pathStep r) st cs). CHR ''/'' \<notin> set x"
proof (rule foldl_invariant [where P = "\<lambda>s. \<forall>x \<in> set s. CHR ''/'' \<notin> set x"])
  show "\<forall>x \<in> set st. CHR ''/'' \<notin> set x" by (rule assms)
next
  fix s c assume "\<forall>x \<in> set s. CHR ''/'' \<notin> set x" and "c \<in> set cs"
  then show "\<forall>x \<in> set (pathStep r s c). CHR ''/'' \<notin> set x"
    using pathStep_subset [of r s c] cs by blast
qed

lemma foldl_pathStep_kept:
  assumes "\<forall>x \<in> set st. kept x"
  shows "\<forall>x \<in> set (foldl (pathStep r) st cs). kept x"
proof (rule foldl_invariant [where P = "\<lambda>s. \<forall>x \<in> set s. kept x"])
  show "\<forall>x \<in> set st. kept x" by (rule assms)
next
  fix s c assume "\<forall>x \<in> set s. kept x"
  then show "\<forall>x \<in> set (pathStep r s c). kept x"
    using pathStep_kept_subset [of r s c] by (auto split: if_splits)
qed

lemma pathStep_relative_then_rooted:
  assumes "\<forall>x \<in> set st. kept x"
  shows "foldl (pathStep True) wd (pathStep False st c) = pathStep True (foldl (pathStep True) wd st) c"
proof (cases "c = ''..'' \<and> st \<noteq> [] \<and> last st \<noteq> ''..''")
  case True
  then obtain st' m where st: "st = st' @ [m]" and m: "m \<noteq> ''..''"
    by (metis append_butlast_last_id)
  with assms have "m \<noteq> []" "m \<noteq> ''.''" by (auto simp: kept_def)
  with m have "foldl (pathStep True) wd st = foldl (pathStep True) wd st' @ [m]"
    by (simp add: st pathStep_plain)
  with True st m show ?thesis by (simp add: pathStep_def)
next
  case False
  then show ?thesis by (auto simp: pathStep_def)
qed

lemma foldl_relative_then_rooted:
  "\<forall>x \<in> set st. kept x \<Longrightarrow>
   foldl (pathStep True) wd (foldl (pathStep False) st xs) =
   foldl (pathStep True) (foldl (pathStep True) wd st) xs"
proof (induction xs arbitrary: st)
  case Nil
  show ?case by simp
next
  case (Cons x xs)
  have k: "\<forall>y \<in> set (pathStep False st x). kept y"
    using Cons.prems pathStep_kept_subset [of False st x] by (auto split: if_splits)
  have "foldl (pathStep True) wd (foldl (pathStep False) (pathStep False st x) xs) =
    foldl (pathStep True) (foldl (pathStep True) wd (pathStep False st x)) xs"
    by (rule Cons.IH [OF k])
  also have "foldl (pathStep True) wd (pathStep False st x) = pathStep True (foldl (pathStep True) wd st) x"
    by (rule pathStep_relative_then_rooted [OF Cons.prems])
  finally show ?case by simp
qed

lemma joinSep_head:
  "x \<noteq> [] \<Longrightarrow> joinSep (x # rest) \<noteq> [] \<and> hd (joinSep (x # rest)) = hd x"
  by (cases rest) auto

lemma IsAbs_joinSep:
  assumes "cs \<noteq> []" and "\<forall>x \<in> set cs. kept x \<and> CHR ''/'' \<notin> set x"
  shows "joinSep cs \<noteq> [] \<and> \<not> IsAbs (joinSep cs)"
proof -
  from assms obtain x rest where cs: "cs = x # rest" by (cases cs) auto
  with assms have x: "x \<noteq> []" "CHR ''/'' \<notin> set x" by (auto simp: kept_def)
  then have "hd x \<noteq> CHR ''/''" by (cases x) auto
  with joinSep_head [OF x(1), of rest] show ?thesis
    by (cases "joinSep (x # rest)") (auto simp: cs IsAbs_def)
qed

lemma lexical_Join:
  assumes d: "lexical wd dir = Some d" and n: "plainName n"
  shows "lexical wd (Join dir n) = Some (d @ [n])"
proof -
  from d have dir: "dir \<noteq> []" by (auto simp: lexical_def split: if_splits)
  let ?s = "dir @ CHR ''/'' # n"
  have fs: "pathFields ?s = pathFields dir @ [n]"
    using n by (simp add: pathFields_append_slash pathFields_plain plainName_def)
  have abs: "IsAbs ?s = IsAbs dir" using dir by (cases dir) (auto simp: IsAbs_def)
  have pn: "proper n" using n by (simp add: proper_def plainName_def)
  show ?thesis
  proof (cases "IsAbs dir")
    case True
    with d dir have dd: "d = foldl (pathStep True) [] (pathFields dir)" by (simp add: lexical_def)
    let ?cs = "d @ [n]"
    have cs: "foldl (pathStep True) [] (pathFields ?s) = ?cs"
      using pn by (simp add: fs dd pathStep_plain proper_def)
    have pr: "\<forall>x \<in> set ?cs. proper x"
      using foldl_pathStep_True_proper [of "[]" "pathFields dir"] pn by (auto simp: dd)
    have nosl: "\<forall>x \<in> set ?cs. CHR ''/'' \<notin> set x"
      using foldl_pathStep_no_slash [of "[]" "pathFields dir" True] n
      by (auto simp: dd plainName_def pathFields_no_slash)
    have cl: "Join dir n = CHR ''/'' # joinSep ?cs"
      using dir True by (simp add: Join_def Clean_def abs cs Let_def)
    have "pathFields (joinSep ?cs) = ?cs" using nosl by (intro pathFields_joinSep) auto
    then have "foldl (pathStep True) [] (pathFields (CHR ''/'' # joinSep ?cs)) = ?cs"
      using foldl_pathStep_proper [OF pr, of True "[]"] by (simp add: pathStep_def)
    then show ?thesis by (simp add: cl lexical_def IsAbs_def)
  next
    case False
    with d dir obtain w0 where wd: "wd = Some w0"
      and dd: "d = foldl (pathStep True) w0 (pathFields dir)" by (auto simp: lexical_def)
    let ?X = "foldl (pathStep False) [] (pathFields dir)"
    let ?cs = "?X @ [n]"
    have cs: "foldl (pathStep False) [] (pathFields ?s) = ?cs"
      using pn by (simp add: fs pathStep_plain proper_def)
    have kp: "\<forall>x \<in> set ?cs. kept x \<and> CHR ''/'' \<notin> set x"
      using foldl_pathStep_kept [of "[]" False "pathFields dir"]
        foldl_pathStep_no_slash [of "[]" "pathFields dir" False] n
      by (auto simp: plainName_def kept_def pathFields_no_slash)
    have cl: "Join dir n = joinSep ?cs"
      using dir False by (simp add: Join_def Clean_def abs cs Let_def)
    have rel: "joinSep ?cs \<noteq> [] \<and> \<not> IsAbs (joinSep ?cs)"
      using kp by (intro IsAbs_joinSep) auto
    have pf: "pathFields (joinSep ?cs) = ?cs" using kp by (intro pathFields_joinSep) auto
    have "foldl (pathStep True) w0 ?cs = foldl (pathStep True) w0 ?X @ [n]"
      using pn by (simp add: pathStep_plain proper_def)
    also have "foldl (pathStep True) w0 ?X = d"
      using foldl_relative_then_rooted [of "[]" w0 "pathFields dir"] by (simp add: dd)
    finally show ?thesis using rel by (simp add: cl lexical_def wd pf)
  qed
qed

lemma ancestor_exists:
  "wellFormed fs \<Longrightarrow> e \<in> set fs \<Longrightarrow> loc e = q @ r \<Longrightarrow> q \<noteq> [] \<Longrightarrow> \<exists>a \<in> set fs. loc a = q"
proof (induction r arbitrary: e rule: rev_induct)
  case Nil
  then show ?case by auto
next
  case (snoc x r)
  from snoc.prems(1,2) have "isDirAt fs (butlast (loc e))"
    unfolding wellFormed_def by blast
  moreover have "butlast (loc e) = q @ r" using snoc.prems(3) by (simp add: butlast_append)
  ultimately obtain p where "p \<in> set fs" "loc p = q @ r"
    using snoc.prems(4) by (auto simp: isDirAt_def)
  then show ?case using snoc.IH snoc.prems(1,4) by blast
qed

lemma isDirAt_existsAt: "isDirAt fs d \<Longrightarrow> existsAt fs d"
  by (auto simp: isDirAt_def existsAt_def)

lemma pathStep_True_dotdot: "\<forall>x \<in> set cur. proper x \<Longrightarrow> pathStep True cur ''..'' = butlast cur"
  by (cases cur rule: rev_cases) (auto simp: pathStep_def proper_def)

lemma walk_lexical:
  "walk fs cur cs = Inr q \<Longrightarrow> \<forall>x \<in> set cur. proper x \<Longrightarrow> q = foldl (pathStep True) cur cs"
proof (induction cs arbitrary: cur)
  case Nil
  then show ?case by simp
next
  case (Cons c cs)
  have b: "\<forall>x \<in> set (butlast cur). proper x" using Cons.prems(2) by (auto dest: in_set_butlastD)
  show ?case
  proof (cases "c = [] \<or> c = ''.''")
    case True
    with Cons.prems have "walk fs cur cs = Inr q" by (auto split: if_splits)
    from Cons.IH [OF this Cons.prems(2)] True show ?thesis by (auto simp: pathStep_def)
  next
    case False
    show ?thesis
    proof (cases "c = ''..''")
      case True
      with Cons.prems have "walk fs (butlast cur) cs = Inr q" by (auto split: if_splits)
      from Cons.IH [OF this b] True show ?thesis
        by (simp add: pathStep_True_dotdot [OF Cons.prems(2)])
    next
      case nd: False
      with False Cons.prems have w: "walk fs (cur @ [c]) cs = Inr q" by (auto split: if_splits)
      have "\<forall>x \<in> set (cur @ [c]). proper x" using Cons.prems(2) False nd by (simp add: proper_def)
      from Cons.IH [OF w this] False nd show ?thesis by (simp add: pathStep_def)
    qed
  qed
qed

lemma wellFormed_proper: "wellFormed fs \<Longrightarrow> existsAt fs c \<Longrightarrow> \<forall>x \<in> set c. proper x"
  unfolding wellFormed_def existsAt_def proper_def plainName_def by fastforce

lemma parent_dir: "wellFormed fs \<Longrightarrow> existsAt fs c \<Longrightarrow> isDirAt fs (butlast c)"
  unfolding wellFormed_def existsAt_def by (auto simp: isDirAt_def)

lemma ancestors_dirs:
  "wellFormed fs \<Longrightarrow> existsAt fs (a @ b) \<Longrightarrow> b \<noteq> [] \<Longrightarrow> isDirAt fs a"
proof (induction b rule: rev_induct)
  case Nil
  then show ?case by simp
next
  case (snoc x b)
  from parent_dir [OF snoc.prems(1,2)] have d: "isDirAt fs (a @ b)" by (simp add: butlast_append)
  show ?case
  proof (cases "b = []")
    case True
    with d show ?thesis by simp
  next
    case False
    from snoc.IH [OF snoc.prems(1) isDirAt_existsAt [OF d] False] show ?thesis .
  qed
qed

lemma walk_names:
  "wellFormed fs \<Longrightarrow> \<forall>x \<in> set names. proper x \<Longrightarrow> isDirAt fs (cur @ names) \<Longrightarrow>
   walk fs cur (names @ rest) = walk fs (cur @ names) rest"
proof (induction names arbitrary: cur)
  case Nil
  then show ?case by simp
next
  case (Cons x names)
  have d: "isDirAt fs ((cur @ [x]) @ names)" using Cons.prems(3) by simp
  have c: "isDirAt fs cur"
    using ancestors_dirs [OF Cons.prems(1) isDirAt_existsAt [OF Cons.prems(3)]] by simp
  have e: "existsAt fs (cur @ [x])"
  proof (cases "names = []")
    case True
    with d show ?thesis by (simp add: isDirAt_existsAt)
  next
    case False
    from ancestors_dirs [OF Cons.prems(1) isDirAt_existsAt [OF d] False]
    show ?thesis by (rule isDirAt_existsAt)
  qed
  have x: "x \<noteq> []" "x \<noteq> ''.''" "x \<noteq> ''..''" using Cons.prems(2) by (simp_all add: proper_def)
  have "walk fs cur ((x # names) @ rest) = walk fs (cur @ [x]) (names @ rest)"
    using c e x by (simp add: isDirAt_existsAt)
  also have "\<dots> = walk fs ((cur @ [x]) @ names) rest"
    using Cons.prems(2) by (intro Cons.IH [OF Cons.prems(1) _ d]) simp
  finally show ?case by simp
qed

lemma walk_ups:
  "wellFormed fs \<Longrightarrow> isDirAt fs cur \<Longrightarrow>
   walk fs cur (replicate k ''..'' @ rest) = walk fs ((butlast ^^ k) cur) rest"
proof (induction k arbitrary: cur)
  case 0
  then show ?case by simp
next
  case (Suc k)
  have p: "isDirAt fs (butlast cur)"
    by (rule parent_dir [OF Suc.prems(1) isDirAt_existsAt [OF Suc.prems(2)]])
  have "walk fs cur (replicate (Suc k) ''..'' @ rest) = walk fs (butlast cur) (replicate k ''..'' @ rest)"
    using Suc.prems(2) by (simp add: isDirAt_existsAt)
  also have "\<dots> = walk fs ((butlast ^^ k) (butlast cur)) rest"
    by (rule Suc.IH [OF Suc.prems(1) p])
  finally show ?case by (simp add: funpow_swap1)
qed

lemma walk_last:
  "isDirAt fs d \<Longrightarrow> proper n \<Longrightarrow>
   walk fs d [n] = (if existsAt fs (d @ [n]) then Inr (d @ [n]) else Inl ENOENT)"
  by (simp add: isDirAt_existsAt proper_def)

lemma pathStep_False_shape:
  assumes "\<exists>k names. st = replicate k ''..'' @ names \<and> (\<forall>x \<in> set names. proper x)"
  shows "\<exists>k names. pathStep False st c = replicate k ''..'' @ names \<and> (\<forall>x \<in> set names. proper x)"
proof -
  from assms obtain k names where st: "st = replicate k ''..'' @ names"
    and pr: "\<forall>x \<in> set names. proper x" by blast
  show ?thesis
  proof (cases "c = [] \<or> c = ''.''")
    case True
    with assms show ?thesis by (simp add: pathStep_def)
  next
    case False
    show ?thesis
    proof (cases "c = ''..''")
      case nd: False
      with False have "pathStep False st c = replicate k ''..'' @ (names @ [c])"
        by (simp add: pathStep_def st)
      moreover have "\<forall>x \<in> set (names @ [c]). proper x" using pr False nd by (simp add: proper_def)
      ultimately show ?thesis by blast
    next
      case True
      show ?thesis
      proof (cases "names = []")
        case e: True
        then have "pathStep False st c = replicate (Suc k) ''..'' @ []"
          using True by (cases k) (simp_all add: pathStep_def st replicate_append_same)
        then show ?thesis by (metis empty_iff list.set(1))
      next
        case ne: False
        then have l: "last st \<noteq> ''..''" and s: "st \<noteq> []"
          using pr by (auto simp: st proper_def)
        then have "pathStep False st c = replicate k ''..'' @ butlast names"
          using True ne by (simp add: pathStep_def st butlast_append)
        moreover have "\<forall>x \<in> set (butlast names). proper x" using pr by (auto dest: in_set_butlastD)
        ultimately show ?thesis by blast
      qed
    qed
  qed
qed

lemma foldl_pathStep_False_shape:
  "\<exists>k names. foldl (pathStep False) [] cs = replicate k ''..'' @ names \<and> (\<forall>x \<in> set names. proper x)"
proof (rule foldl_invariant
    [where P = "\<lambda>st. \<exists>k names. st = replicate k ''..'' @ names \<and> (\<forall>x \<in> set names. proper x)"])
  show "\<exists>k names. [] = replicate k ''..'' @ names \<and> (\<forall>x \<in> set names. proper x)" by simp
next
  fix s c
  assume "\<exists>k names. s = replicate k ''..'' @ names \<and> (\<forall>x \<in> set names. proper x)"
  then show "\<exists>k names. pathStep False s c = replicate k ''..'' @ names \<and> (\<forall>x \<in> set names. proper x)"
    by (rule pathStep_False_shape)
qed

lemma foldl_pathStep_True_ups:
  "\<forall>x \<in> set c. proper x \<Longrightarrow> foldl (pathStep True) c (replicate k ''..'') = (butlast ^^ k) c"
proof (induction k arbitrary: c)
  case 0
  then show ?case by simp
next
  case (Suc k)
  have b: "\<forall>x \<in> set (butlast c). proper x" using Suc.prems by (auto dest: in_set_butlastD)
  from Suc.IH [OF b] show ?case
    by (simp add: pathStep_True_dotdot [OF Suc.prems] funpow_swap1)
qed

lemma resolve_Join:
  assumes wf: "wellFormed fs" and l: "lexical wd dir = Some d" and dd: "isDirAt fs d"
    and n: "plainName n" and rel: "IsAbs dir \<or> (\<exists>c. wd = Some c \<and> isDirAt fs c)"
  shows "resolve fs wd (Join dir n) = (if existsAt fs (d @ [n]) then Inr (d @ [n]) else Inl ENOENT) \<and>
         last (pathFields (Join dir n)) = n \<and> Join dir n \<noteq> []"
proof -
  from l have dir: "dir \<noteq> []" by (auto simp: lexical_def split: if_splits)
  let ?s = "dir @ CHR ''/'' # n"
  have fs: "pathFields ?s = pathFields dir @ [n]"
    using n by (simp add: pathFields_append_slash pathFields_plain plainName_def)
  have abs: "IsAbs ?s = IsAbs dir" using dir by (cases dir) (auto simp: IsAbs_def)
  have pn: "proper n" using n by (simp add: proper_def plainName_def)
  have dpr: "\<forall>x \<in> set d. proper x" by (rule wellFormed_proper [OF wf isDirAt_existsAt [OF dd]])
  show ?thesis
  proof (cases "IsAbs dir")
    case True
    with l dir have d: "d = foldl (pathStep True) [] (pathFields dir)" by (simp add: lexical_def)
    let ?cs = "d @ [n]"
    have cs: "foldl (pathStep True) [] (pathFields ?s) = ?cs"
      using pn by (simp add: fs d pathStep_plain proper_def)
    have nosl: "\<forall>x \<in> set ?cs. CHR ''/'' \<notin> set x"
      using foldl_pathStep_no_slash [of "[]" "pathFields dir" True] n
      by (auto simp: d plainName_def pathFields_no_slash)
    have cl: "Join dir n = CHR ''/'' # joinSep ?cs"
      using dir True by (simp add: Join_def Clean_def abs cs Let_def)
    have pf: "pathFields (joinSep ?cs) = ?cs" using nosl by (intro pathFields_joinSep) auto
    have pfj: "pathFields (Join dir n) = [] # ?cs" by (simp add: cl pf)
    have "walk fs [] ([] # ?cs) = walk fs [] (d @ [n])" by (simp add: existsAt_def isDirAt_def)
    also have "\<dots> = walk fs ([] @ d) [n]" using dpr dd by (intro walk_names [OF wf]) simp_all
    also have "\<dots> = (if existsAt fs (d @ [n]) then Inr (d @ [n]) else Inl ENOENT)"
      using walk_last [OF dd pn] by simp
    finally have w: "walk fs [] ([] # ?cs) =
        (if existsAt fs (d @ [n]) then Inr (d @ [n]) else Inl ENOENT)" .
    have ne: "Join dir n \<noteq> []" and ab: "IsAbs (Join dir n)" by (simp_all add: cl IsAbs_def)
    have "resolve fs wd (Join dir n) = walk fs [] ([] # ?cs)"
      unfolding resolve_def pfj using ne ab by simp
    with w ne show ?thesis by (simp add: pfj)
  next
    case False
    with l dir obtain w0 where wd: "wd = Some w0"
      and d: "d = foldl (pathStep True) w0 (pathFields dir)" by (auto simp: lexical_def)
    from rel False wd have w0d: "isDirAt fs w0" by simp
    have w0p: "\<forall>x \<in> set w0. proper x" by (rule wellFormed_proper [OF wf isDirAt_existsAt [OF w0d]])
    let ?X = "foldl (pathStep False) [] (pathFields dir)"
    let ?cs = "?X @ [n]"
    from foldl_pathStep_False_shape [of "pathFields dir"] obtain k names
      where X: "?X = replicate k ''..'' @ names" and np: "\<forall>x \<in> set names. proper x" by blast
    have cs: "foldl (pathStep False) [] (pathFields ?s) = ?cs"
      using pn by (simp add: fs pathStep_plain proper_def)
    have kp: "\<forall>x \<in> set ?cs. kept x \<and> CHR ''/'' \<notin> set x"
      using foldl_pathStep_kept [of "[]" False "pathFields dir"]
        foldl_pathStep_no_slash [of "[]" "pathFields dir" False] n
      by (auto simp: plainName_def kept_def pathFields_no_slash)
    have cl: "Join dir n = joinSep ?cs"
      using dir False by (simp add: Join_def Clean_def abs cs Let_def)
    have rl: "joinSep ?cs \<noteq> [] \<and> \<not> IsAbs (joinSep ?cs)"
      using kp by (intro IsAbs_joinSep) auto
    have pf: "pathFields (joinSep ?cs) = ?cs" using kp by (intro pathFields_joinSep) auto
    have "d = foldl (pathStep True) w0 ?X"
      using foldl_relative_then_rooted [of "[]" w0 "pathFields dir"] by (simp add: d)
    also have "\<dots> = foldl (pathStep True) ((butlast ^^ k) w0) names"
      by (simp add: X foldl_pathStep_True_ups [OF w0p])
    also have "\<dots> = (butlast ^^ k) w0 @ names" by (rule foldl_pathStep_proper [OF np])
    finally have dk: "d = (butlast ^^ k) w0 @ names" .
    have "walk fs w0 ?cs = walk fs w0 (replicate k ''..'' @ (names @ [n]))" by (simp add: X)
    also have "\<dots> = walk fs ((butlast ^^ k) w0) (names @ [n])" by (rule walk_ups [OF wf w0d])
    also have "\<dots> = walk fs ((butlast ^^ k) w0 @ names) [n]"
      using np dd by (intro walk_names [OF wf]) (simp_all add: dk)
    also have "\<dots> = (if existsAt fs (d @ [n]) then Inr (d @ [n]) else Inl ENOENT)"
      using walk_last [OF dd pn] by (simp add: dk)
    finally have w: "walk fs w0 ?cs =
        (if existsAt fs (d @ [n]) then Inr (d @ [n]) else Inl ENOENT)" .
    have pfj: "pathFields (Join dir n) = ?cs" by (simp only: cl pf)
    have ne: "Join dir n \<noteq> []" and ab: "\<not> IsAbs (Join dir n)" using rl by (simp_all add: cl)
    have "resolve fs wd (Join dir n) = walk fs w0 ?cs"
      unfolding resolve_def pfj using ne ab by (simp add: wd)
    with w ne show ?thesis by (simp add: pfj)
  qed
qed

lemma walk_exists:
  "walk fs cur cs = Inr q \<Longrightarrow> wellFormed fs \<Longrightarrow> existsAt fs cur \<Longrightarrow> existsAt fs q"
proof (induction cs arbitrary: cur)
  case Nil
  then show ?case by simp
next
  case (Cons c cs)
  from Cons.prems(1) have d: "isDirAt fs cur" by (auto split: if_splits)
  from Cons.prems(1) consider "walk fs cur cs = Inr q"
    | "walk fs (butlast cur) cs = Inr q"
    | "existsAt fs (cur @ [c])" "walk fs (cur @ [c]) cs = Inr q"
    by (auto split: if_splits)
  then show ?case
  proof cases
    case 1
    then show ?thesis by (rule Cons.IH [OF _ Cons.prems(2,3)])
  next
    case 2
    from Cons.IH [OF 2 Cons.prems(2)] parent_dir [OF Cons.prems(2,3)] show ?thesis
      by (simp add: isDirAt_existsAt)
  next
    case 3
    from Cons.IH [OF 3(2) Cons.prems(2) 3(1)] show ?thesis .
  qed
qed

lemma resolve_start:
  "resolve fs wd p = Inr q \<Longrightarrow> p \<noteq> [] \<and> (IsAbs p \<or> (\<exists>c. wd = Some c \<and> isDirAt fs c))"
proof -
  assume r: "resolve fs wd p = Inr q"
  then have p: "p \<noteq> []" by (auto simp: resolve_def split: if_splits)
  obtain f fr where f: "pathFields p = f # fr" using pathFields_nonempty [of p] by (cases "pathFields p") auto
  show ?thesis
  proof (cases "IsAbs p")
    case True
    with p show ?thesis by simp
  next
    case False
    with r p obtain c where c: "wd = Some c" and w: "walk fs c (pathFields p) = Inr q"
      by (auto simp: resolve_def split: option.splits)
    from w have "isDirAt fs c" by (auto simp: f split: if_splits)
    with p c show ?thesis by simp
  qed
qed

lemma resolve_lexical:
  assumes wf: "wellFormed fs" and r: "resolve fs wd p = Inr q"
  shows "lexical wd p = Some q \<and> existsAt fs q"
proof -
  from resolve_start [OF r] have p: "p \<noteq> []"
    and st: "IsAbs p \<or> (\<exists>c. wd = Some c \<and> isDirAt fs c)" by simp_all
  show ?thesis
  proof (cases "IsAbs p")
    case True
    with r p have w: "walk fs [] (pathFields p) = Inr q" by (simp add: resolve_def)
    from walk_lexical [OF w] walk_exists [OF w wf] True p show ?thesis
      by (simp add: lexical_def existsAt_def)
  next
    case False
    with st obtain c where c: "wd = Some c" and cd: "isDirAt fs c" by blast
    with r p False have w: "walk fs c (pathFields p) = Inr q" by (simp add: resolve_def)
    from walk_lexical [OF w wellFormed_proper [OF wf isDirAt_existsAt [OF cd]]]
      walk_exists [OF w wf isDirAt_existsAt [OF cd]] False p c
    show ?thesis by (simp add: lexical_def)
  qed
qed

lemma walk_prefix:
  "walk fs cur cs = Inr q \<Longrightarrow> ''..'' \<notin> set cs \<Longrightarrow> prefix cur q"
proof (induction cs arbitrary: cur)
  case Nil
  then show ?case by simp
next
  case (Cons c cs)
  from Cons.prems consider "walk fs cur cs = Inr q" | "walk fs (cur @ [c]) cs = Inr q"
    by (auto split: if_splits)
  then show ?case
  proof cases
    case 1
    from Cons.IH [OF 1] Cons.prems(2) show ?thesis by simp
  next
    case 2
    from Cons.IH [OF 2] Cons.prems(2) have "prefix (cur @ [c]) q" by simp
    then show ?thesis by (rule append_prefixD)
  qed
qed

lemma resolve_abs: "IsAbs p \<Longrightarrow> resolve fs wd p = resolve fs wd' p"
  by (simp add: resolve_def)

lemma resolve_below_cwd:
  "resolve fs (Some c) p = Inr q \<Longrightarrow> \<not> IsAbs p \<Longrightarrow> ''..'' \<notin> set (pathFields p) \<Longrightarrow> prefix c q"
  using walk_prefix [of fs c "pathFields p" q] by (auto simp: resolve_def split: if_splits)

lemma places_start: "cur \<in> set (places cur cs)"
  by (cases cs) simp_all

lemma walk_places: "walk fs cur cs = Inr q \<Longrightarrow> q \<in> set (places cur cs)"
proof (induction cs arbitrary: cur)
  case Nil
  then show ?case by simp
next
  case (Cons c cs)
  from Cons.prems have "walk fs (if c = [] \<or> c = ''.'' then cur
      else if c = ''..'' then butlast cur else cur @ [c]) cs = Inr q"
    by (auto split: if_splits)
  from Cons.IH [OF this] show ?case by simp
qed

lemma walk_same_places:
  assumes "walk fs cur cs = Inr q"
    and keep: "\<forall>x \<in> set (places cur cs).
      (existsAt fs x \<longrightarrow> existsAt fs' x) \<and> (isDirAt fs x \<longrightarrow> isDirAt fs' x)"
  shows "walk fs' cur cs = Inr q"
  using assms
proof (induction cs arbitrary: cur)
  case Nil
  then show ?case by simp
next
  case (Cons c cs)
  let ?next = "if c = [] \<or> c = ''.'' then cur else if c = ''..'' then butlast cur else cur @ [c]"
  from Cons.prems(1) have e: "existsAt fs cur" and d: "isDirAt fs cur" by (auto split: if_splits)
  with Cons.prems(2) have e': "existsAt fs' cur" and d': "isDirAt fs' cur" by simp_all
  from Cons.prems(1) have w: "walk fs ?next cs = Inr q" by (auto split: if_splits)
  have k: "\<forall>x \<in> set (places ?next cs).
      (existsAt fs x \<longrightarrow> existsAt fs' x) \<and> (isDirAt fs x \<longrightarrow> isDirAt fs' x)"
    using Cons.prems(2) by simp
  note ih = Cons.IH [OF w k]
  show ?case
  proof (cases "c = [] \<or> c = ''.'' \<or> c = ''..''")
    case True
    with ih e' d' show ?thesis by auto
  next
    case False
    with Cons.prems(1) e d have x: "existsAt fs (cur @ [c])" by (auto split: if_splits)
    have "cur @ [c] \<in> set (places (cur @ [c]) cs)" by (rule places_start)
    with False k x have "existsAt fs' (cur @ [c])" by simp
    with ih False e' d' show ?thesis by auto
  qed
qed

lemma resolve_same_places:
  assumes "resolve fs wd p = Inr q"
    and "\<forall>x \<in> set (passes wd p).
      (existsAt fs x \<longrightarrow> existsAt fs' x) \<and> (isDirAt fs x \<longrightarrow> isDirAt fs' x)"
  shows "resolve fs' wd p = Inr q"
proof -
  from assms(1) have p: "p \<noteq> []" by (auto simp: resolve_def split: if_splits)
  show ?thesis
  proof (cases "IsAbs p")
    case True
    with assms p have "walk fs [] (pathFields p) = Inr q"
      and "\<forall>x \<in> set (places [] (pathFields p)).
        (existsAt fs x \<longrightarrow> existsAt fs' x) \<and> (isDirAt fs x \<longrightarrow> isDirAt fs' x)"
      by (simp_all add: resolve_def passes_def)
    from walk_same_places [OF this] True p show ?thesis by (simp add: resolve_def)
  next
    case False
    with assms(1) p obtain c where c: "wd = Some c" and w: "walk fs c (pathFields p) = Inr q"
      by (auto simp: resolve_def split: option.splits)
    from assms(2) False p c have "\<forall>x \<in> set (places c (pathFields p)).
        (existsAt fs x \<longrightarrow> existsAt fs' x) \<and> (isDirAt fs x \<longrightarrow> isDirAt fs' x)"
      by (simp add: passes_def)
    from walk_same_places [OF w this] False p c show ?thesis by (simp add: resolve_def)
  qed
qed

lemma resolve_passes:
  assumes "resolve fs wd p = Inr q"
  shows "q \<in> set (passes wd p)" and "\<not> IsAbs p \<Longrightarrow> \<exists>c. wd = Some c \<and> c \<in> set (passes wd p)"
proof -
  from assms have p: "p \<noteq> []" by (auto simp: resolve_def split: if_splits)
  show "q \<in> set (passes wd p)"
    using assms p walk_places [of fs _ "pathFields p" q]
    by (auto simp: resolve_def passes_def split: if_splits option.splits)
  show "\<exists>c. wd = Some c \<and> c \<in> set (passes wd p)" if "\<not> IsAbs p"
    using assms p that places_start [of _ "pathFields p"]
    by (auto simp: resolve_def passes_def split: if_splits option.splits)
qed

lemma places_between:
  "walk fs cur cs = Inr q \<Longrightarrow> ''..'' \<notin> set cs \<Longrightarrow> x \<in> set (places cur cs) \<Longrightarrow> prefix x q"
proof (induction cs arbitrary: cur)
  case Nil
  then show ?case by simp
next
  case (Cons c cs)
  let ?next = "if c = [] \<or> c = ''.'' then cur else if c = ''..'' then butlast cur else cur @ [c]"
  from Cons.prems(1) have w: "walk fs ?next cs = Inr q" by (auto split: if_splits)
  have nd: "''..'' \<notin> set cs" using Cons.prems(2) by simp
  from Cons.prems(3) consider "x = cur" | "x \<in> set (places ?next cs)" by auto
  then show ?case
  proof cases
    case 1
    with walk_prefix [OF Cons.prems(1,2)] show ?thesis by simp
  next
    case 2
    from Cons.IH [OF w nd 2] show ?thesis .
  qed
qed

lemma passes_between:
  "resolve fs wd p = Inr q \<Longrightarrow> ''..'' \<notin> set (pathFields p) \<Longrightarrow> x \<in> set (passes wd p) \<Longrightarrow> prefix x q"
  using places_between [of fs _ "pathFields p" q x]
  by (auto simp: resolve_def passes_def split: if_splits option.splits)

section \<open>Emptying a directory\<close>

lemma blocked_prefix: "prefix p q \<Longrightarrow> blocked fs q \<Longrightarrow> blocked fs p"
  unfolding blocked_def by (meson prefix_order.trans)

lemma blocked_filter: "blocked (filter P fs) q \<Longrightarrow> blocked fs q"
  by (auto simp: blocked_def)

lemma wellFormed_filter:
  assumes "wellFormed fs" and up: "\<And>x. K x \<Longrightarrow> K (butlast x)"
  shows "wellFormed (filter (\<lambda>e. K (loc e)) fs)"
  unfolding wellFormed_def
proof
  fix e assume e: "e \<in> set (filter (\<lambda>e. K (loc e)) fs)"
  then have efs: "e \<in> set fs" and k: "K (loc e)" by simp_all
  from assms(1) efs have ne: "loc e \<noteq> []" and pl: "\<forall>n \<in> set (loc e). plainName n"
    and par: "isDirAt fs (butlast (loc e))" unfolding wellFormed_def by blast+
  from par up [OF k] have "isDirAt (filter (\<lambda>e. K (loc e)) fs) (butlast (loc e))"
    by (auto simp: isDirAt_def)
  with ne pl show "loc e \<noteq> [] \<and> (\<forall>n \<in> set (loc e). plainName n) \<and>
      isDirAt (filter (\<lambda>e. K (loc e)) fs) (butlast (loc e))" by simp
qed

lemma isDirAt_filter: "isDirAt fs d \<Longrightarrow> K d \<Longrightarrow> isDirAt (filter (\<lambda>e. K (loc e)) fs) d"
  by (auto simp: isDirAt_def)

lemma reaches_filter:
  assumes r: "reaches fs wd dir d" and up: "\<And>x. K x \<Longrightarrow> K (butlast x)"
    and out: "\<And>x. \<not> strict_prefix d x \<Longrightarrow> K x"
  shows "reaches (filter (\<lambda>e. K (loc e)) fs) wd dir d"
proof -
  let ?fs = "filter (\<lambda>e. K (loc e)) fs"
  from r have wf: "wellFormed fs" and l: "lexical wd dir = Some d" and dd: "isDirAt fs d"
    and rel: "IsAbs dir \<or> (\<exists>c. wd = Some c \<and> isDirAt fs c)"
    and safe: "\<forall>c. wd = Some c \<longrightarrow> \<not> strict_prefix d c" unfolding reaches_def by blast+
  have wf': "wellFormed ?fs" using wf up by (rule wellFormed_filter)
  have dd': "isDirAt ?fs d" using dd by (rule isDirAt_filter) (simp add: out)
  have rel': "IsAbs dir \<or> (\<exists>c. wd = Some c \<and> isDirAt ?fs c)"
  proof (cases "IsAbs dir")
    case True
    then show ?thesis by simp
  next
    case False
    with rel obtain c where c: "wd = Some c" "isDirAt fs c" by blast
    with safe have "K c" by (simp add: out)
    with c show ?thesis by (simp add: isDirAt_filter)
  qed
  from wf' l dd' rel' safe show ?thesis unfolding reaches_def by blast
qed

lemma prefix_butlast: "prefix p (butlast x) \<Longrightarrow> prefix p x"
  using prefixeq_butlast [of x] by (meson prefix_order.trans)

lemma below_child_strict: "prefix (d @ [n]) x \<Longrightarrow> strict_prefix d x"
  by (auto simp: prefix_def strict_prefix_def)

lemma reaches_step:
  assumes "reaches fs wd dir d"
  shows "reaches (filter (\<lambda>e. \<not> prefix (d @ [n]) (loc e)) fs) wd dir d"
  using assms
proof (rule reaches_filter [where K = "\<lambda>x. \<not> prefix (d @ [n]) x"])
  fix x assume "\<not> prefix (d @ [n]) x"
  then show "\<not> prefix (d @ [n]) (butlast x)" by (auto dest: prefix_butlast)
next
  fix x assume "\<not> strict_prefix d x"
  then show "\<not> prefix (d @ [n]) x" by (auto dest: below_child_strict)
qed

lemma reaches_steps:
  assumes "reaches fs wd dir d"
  shows "reaches (filter (\<lambda>e. \<not> (\<exists>m \<in> set pre. prefix (d @ [m]) (loc e))) fs) wd dir d"
  using assms
proof (rule reaches_filter [where K = "\<lambda>x. \<not> (\<exists>m \<in> set pre. prefix (d @ [m]) x)"])
  fix x assume "\<not> (\<exists>m \<in> set pre. prefix (d @ [m]) x)"
  then show "\<not> (\<exists>m \<in> set pre. prefix (d @ [m]) (butlast x))" by (auto dest: prefix_butlast)
next
  fix x assume "\<not> strict_prefix d x"
  then show "\<not> (\<exists>m \<in> set pre. prefix (d @ [m]) x)" by (auto dest: below_child_strict)
qed

lemma nothing_below_missing:
  assumes wf: "wellFormed fs" and no: "\<not> existsAt fs q" and e: "e \<in> set fs"
  shows "\<not> prefix q (loc e)"
proof
  assume "prefix q (loc e)"
  then obtain r where le: "loc e = q @ r" by (auto simp: prefix_def)
  from no have "q \<noteq> []" by (auto simp: existsAt_def)
  from ancestor_exists [OF wf e le this] no show False by (auto simp: existsAt_def)
qed

lemma RemoveAll_child:
  assumes r: "reaches (files w) (cwd w) dir d" and n: "plainName n"
  shows "RemoveAll (Join dir n) w =
    (if blocked (files w) (d @ [n]) then Some EBUSY else None,
     w\<lparr>fsCalls := fsCalls w @ [CallRemoveAll (Join dir n)],
       files := filter (\<lambda>e. \<not> prefix (d @ [n]) (loc e) \<or> blocked (files w) (loc e)) (files w)\<rparr>)"
proof -
  from r have wf: "wellFormed (files w)" and l: "lexical (cwd w) dir = Some d"
    and dd: "isDirAt (files w) d"
    and rel: "IsAbs dir \<or> (\<exists>c. cwd w = Some c \<and> isDirAt (files w) c)"
    and safe: "\<forall>c. cwd w = Some c \<longrightarrow> \<not> strict_prefix d c" unfolding reaches_def by blast+
  from resolve_Join [OF wf l dd n rel]
  have res: "resolve (files w) (cwd w) (Join dir n) =
      (if existsAt (files w) (d @ [n]) then Inr (d @ [n]) else Inl ENOENT)"
    and lst: "last (pathFields (Join dir n)) = n" and ne: "Join dir n \<noteq> []" by simp_all
  have nd: "n \<noteq> ''.''" using n by (simp add: plainName_def)
  show ?thesis
  proof (cases "existsAt (files w) (d @ [n])")
    case True
    have "(case cwd w of None \<Rightarrow> None
           | Some c \<Rightarrow> if c \<noteq> [] \<and> prefix (d @ [n]) c \<and> \<not> blocked (files w) c then None else Some c) =
          cwd w"
      using safe by (auto split: option.splits dest: below_child_strict)
    then show ?thesis using True res lst ne nd by (simp add: RemoveAll_def Let_def)
  next
    case False
    have nb: "\<not> blocked (files w) (d @ [n])"
      using nothing_below_missing [OF wf False] by (auto simp: blocked_def)
    have "filter (\<lambda>e. \<not> prefix (d @ [n]) (loc e) \<or> blocked (files w) (loc e)) (files w) = files w"
      using nothing_below_missing [OF wf False] by (simp add: filter_id_conv)
    then show ?thesis using False res lst ne nd nb by (simp add: RemoveAll_def Let_def)
  qed
qed

lemma RemoveAll_child_ok:
  assumes "reaches (files w) (cwd w) dir d" and "plainName n" and nb: "\<not> blocked (files w) (d @ [n])"
  shows "RemoveAll (Join dir n) w =
    (None, w\<lparr>fsCalls := fsCalls w @ [CallRemoveAll (Join dir n)],
       files := filter (\<lambda>e. \<not> prefix (d @ [n]) (loc e)) (files w)\<rparr>)"
proof -
  have "filter (\<lambda>e. \<not> prefix (d @ [n]) (loc e) \<or> blocked (files w) (loc e)) (files w) =
        filter (\<lambda>e. \<not> prefix (d @ [n]) (loc e)) (files w)"
    using nb blocked_prefix by (intro filter_cong) auto
  then show ?thesis using RemoveAll_child [OF assms(1,2)] nb by simp
qed

lemma filter_children_step:
  "filter (\<lambda>e. \<not> (\<exists>m \<in> set names. prefix (d @ [m]) (loc e)))
     (filter (\<lambda>e. \<not> prefix (d @ [n]) (loc e)) fs) =
   filter (\<lambda>e. \<not> (\<exists>m \<in> set (n # names). prefix (d @ [m]) (loc e))) fs"
  by (induction fs) simp_all

lemma removeEach_ok:
  "reaches (files w) (cwd w) dir d \<Longrightarrow>
   \<forall>n \<in> set names. plainName n \<and> \<not> blocked (files w) (d @ [n]) \<Longrightarrow>
   removeEach dir names w =
     (None, w\<lparr>fsCalls := fsCalls w @ map (\<lambda>n. CallRemoveAll (Join dir n)) names,
        files := filter (\<lambda>e. \<not> (\<exists>n \<in> set names. prefix (d @ [n]) (loc e))) (files w)\<rparr>)"
proof (induction names arbitrary: w)
  case Nil
  then show ?case by simp
next
  case (Cons n names)
  let ?fs1 = "filter (\<lambda>e. \<not> prefix (d @ [n]) (loc e)) (files w)"
  let ?w1 = "w\<lparr>fsCalls := fsCalls w @ [CallRemoveAll (Join dir n)], files := ?fs1\<rparr>"
  have pn: "plainName n" and nbn: "\<not> blocked (files w) (d @ [n])"
    using Cons.prems(2) by simp_all
  have r: "RemoveAll (Join dir n) w = (None, ?w1)"
    by (rule RemoveAll_child_ok [OF Cons.prems(1) pn nbn])
  have l1: "reaches (files ?w1) (cwd ?w1) dir d"
    using reaches_step [OF Cons.prems(1), of n] by simp
  have nb: "\<forall>m \<in> set names. plainName m \<and> \<not> blocked (files ?w1) (d @ [m])"
  proof
    fix m assume m: "m \<in> set names"
    with Cons.prems(2) have "plainName m" and "\<not> blocked (files w) (d @ [m])" by simp_all
    moreover have "blocked ?fs1 (d @ [m]) \<Longrightarrow> blocked (files w) (d @ [m])"
      by (rule blocked_filter)
    ultimately show "plainName m \<and> \<not> blocked (files ?w1) (d @ [m])" by auto
  qed
  have st: "removeEach dir (n # names) w = removeEach dir names ?w1"
    by (simp add: r)
  have ih: "removeEach dir names ?w1 =
      (None, ?w1\<lparr>fsCalls := fsCalls ?w1 @ map (\<lambda>n. CallRemoveAll (Join dir n)) names,
        files := filter (\<lambda>e. \<not> (\<exists>n \<in> set names. prefix (d @ [n]) (loc e))) (files ?w1)\<rparr>)"
    by (rule Cons.IH [OF l1 nb])
  have weq: "?w1\<lparr>fsCalls := fsCalls ?w1 @ map (\<lambda>n. CallRemoveAll (Join dir n)) names,
        files := filter (\<lambda>e. \<not> (\<exists>n \<in> set names. prefix (d @ [n]) (loc e))) (files ?w1)\<rparr> =
      w\<lparr>fsCalls := fsCalls w @ map (\<lambda>n. CallRemoveAll (Join dir n)) (n # names),
        files := filter (\<lambda>e. \<not> (\<exists>m \<in> set (n # names). prefix (d @ [m]) (loc e))) (files w)\<rparr>"
    unfolding filter_children_step [symmetric] by simp
  show ?case unfolding st ih weq ..
qed

lemma removeEach_append:
  "removeEach dir (xs @ ys) w =
     (case removeEach dir xs w of
        (Some err, w') \<Rightarrow> (Some err, w')
      | (None, w') \<Rightarrow> removeEach dir ys w')"
  by (induction xs arbitrary: w) (simp_all split: prod.splits option.splits)

lemma blocked_after_ok:
  assumes "\<forall>m \<in> set pre. \<not> blocked fs (d @ [m])"
  shows "blocked (filter (\<lambda>e. \<not> (\<exists>m \<in> set pre. prefix (d @ [m]) (loc e))) fs) q = blocked fs q"
proof
  assume "blocked (filter (\<lambda>e. \<not> (\<exists>m \<in> set pre. prefix (d @ [m]) (loc e))) fs) q"
  then show "blocked fs q" by (rule blocked_filter)
next
  assume "blocked fs q"
  then obtain b where b: "b \<in> set fs" "busy b" "prefix q (loc b)"
    by (auto simp: blocked_def)
  have "\<not> (\<exists>m \<in> set pre. prefix (d @ [m]) (loc b))"
  proof
    assume "\<exists>m \<in> set pre. prefix (d @ [m]) (loc b)"
    then obtain m where "m \<in> set pre" "prefix (d @ [m]) (loc b)" by blast
    with b(1,2) assms show False unfolding blocked_def by blast
  qed
  with b show "blocked (filter (\<lambda>e. \<not> (\<exists>m \<in> set pre. prefix (d @ [m]) (loc e))) fs) q"
    unfolding blocked_def by auto
qed

lemma removeEach_fail:
  assumes l: "reaches (files w) (cwd w) dir d"
    and pre: "\<forall>m \<in> set pre. plainName m \<and> \<not> blocked (files w) (d @ [m])"
    and n: "plainName n" and bn: "blocked (files w) (d @ [n])"
  shows "removeEach dir (pre @ n # post) w =
     (Some EBUSY,
      w\<lparr>fsCalls := fsCalls w @ map (\<lambda>n. CallRemoveAll (Join dir n)) (pre @ [n]),
        files := filter (\<lambda>e. \<not> (\<exists>m \<in> set pre. prefix (d @ [m]) (loc e)) \<and>
                          (\<not> prefix (d @ [n]) (loc e) \<or> blocked (files w) (loc e))) (files w)\<rparr>)"
proof -
  define fs1 where "fs1 = filter (\<lambda>e. \<not> (\<exists>m \<in> set pre. prefix (d @ [m]) (loc e))) (files w)"
  define w1 where "w1 = w\<lparr>fsCalls := fsCalls w @ map (\<lambda>n. CallRemoveAll (Join dir n)) pre, files := fs1\<rparr>"
  define w2 where "w2 = w1\<lparr>fsCalls := fsCalls w1 @ [CallRemoveAll (Join dir n)],
       files := filter (\<lambda>e. \<not> prefix (d @ [n]) (loc e) \<or> blocked (files w1) (loc e)) (files w1)\<rparr>"
  have a: "removeEach dir pre w = (None, w1)"
    unfolding w1_def fs1_def by (rule removeEach_ok [OF l pre])
  have bl: "\<And>q. blocked fs1 q = blocked (files w) q"
    unfolding fs1_def using pre by (intro blocked_after_ok) simp
  have f1: "files w1 = fs1" and c1: "cwd w1 = cwd w" by (simp_all add: w1_def)
  have l1: "reaches (files w1) (cwd w1) dir d"
    unfolding f1 c1 fs1_def using l by (rule reaches_steps)
  have r: "RemoveAll (Join dir n) w1 = (Some EBUSY, w2)"
    using RemoveAll_child [OF l1 n] bn bl by (simp add: w2_def f1)
  have "removeEach dir (pre @ n # post) w = removeEach dir (n # post) w1"
    by (simp add: removeEach_append a)
  also have "\<dots> = (Some EBUSY, w2)"
    by (simp add: r)
  also have "w2 = w\<lparr>fsCalls := fsCalls w @ map (\<lambda>n. CallRemoveAll (Join dir n)) (pre @ [n]),
        files := filter (\<lambda>e. \<not> (\<exists>m \<in> set pre. prefix (d @ [m]) (loc e)) \<and>
                          (\<not> prefix (d @ [n]) (loc e) \<or> blocked (files w) (loc e))) (files w)\<rparr>"
    by (simp add: w2_def f1 bl) (simp add: w1_def fs1_def)
  finally show ?thesis .
qed

lemma removeEach_cases:
  assumes l: "reaches (files w) (cwd w) dir d" and pn: "\<forall>n \<in> set names. plainName n"
  shows "(\<forall>n \<in> set names. \<not> blocked (files w) (d @ [n])) \<and>
         removeEach dir names w =
           (None, w\<lparr>fsCalls := fsCalls w @ map (\<lambda>n. CallRemoveAll (Join dir n)) names,
              files := filter (\<lambda>e. \<not> (\<exists>n \<in> set names. prefix (d @ [n]) (loc e))) (files w)\<rparr>)
       \<or> (\<exists>pre n post. names = pre @ n # post \<and>
            (\<forall>m \<in> set pre. \<not> blocked (files w) (d @ [m])) \<and> blocked (files w) (d @ [n]) \<and>
            removeEach dir names w =
              (Some EBUSY,
               w\<lparr>fsCalls := fsCalls w @ map (\<lambda>n. CallRemoveAll (Join dir n)) (pre @ [n]),
                 files := filter (\<lambda>e. \<not> (\<exists>m \<in> set pre. prefix (d @ [m]) (loc e)) \<and>
                          (\<not> prefix (d @ [n]) (loc e) \<or> blocked (files w) (loc e))) (files w)\<rparr>))"
proof (cases "\<exists>n \<in> set names. blocked (files w) (d @ [n])")
  case False
  then have "\<forall>n \<in> set names. plainName n \<and> \<not> blocked (files w) (d @ [n])"
    using pn by blast
  from removeEach_ok [OF l this] False show ?thesis by blast
next
  case True
  then obtain pre n post where sp: "names = pre @ n # post"
    and bn: "blocked (files w) (d @ [n])"
    and pre: "\<forall>m \<in> set pre. \<not> blocked (files w) (d @ [m])"
    using split_list_first_prop [of names "\<lambda>n. blocked (files w) (d @ [n])"] by blast
  have "\<forall>m \<in> set pre. plainName m \<and> \<not> blocked (files w) (d @ [m])"
    using pre pn sp by simp
  moreover have "plainName n" using pn sp by simp
  ultimately have "removeEach dir (pre @ n # post) w =
     (Some EBUSY,
      w\<lparr>fsCalls := fsCalls w @ map (\<lambda>n. CallRemoveAll (Join dir n)) (pre @ [n]),
        files := filter (\<lambda>e. \<not> (\<exists>m \<in> set pre. prefix (d @ [m]) (loc e)) \<and>
                          (\<not> prefix (d @ [n]) (loc e) \<or> blocked (files w) (loc e))) (files w)\<rparr>)"
    using l bn by (intro removeEach_fail) auto
  with sp bn pre show ?thesis by blast
qed

lemma childNames_iff: "n \<in> set (childNames fs d) \<longleftrightarrow> (\<exists>e \<in> set fs. loc e = d @ [n])"
proof
  assume "n \<in> set (childNames fs d)"
  then obtain e where e: "e \<in> set fs" "loc e \<noteq> []" "butlast (loc e) = d" "n = last (loc e)"
    by (auto simp: childNames_def)
  then have "loc e = d @ [n]" using append_butlast_last_id [of "loc e"] by simp
  with e(1) show "\<exists>e \<in> set fs. loc e = d @ [n]" by blast
next
  assume "\<exists>e \<in> set fs. loc e = d @ [n]"
  then obtain e where "e \<in> set fs" "loc e = d @ [n]" by blast
  then show "n \<in> set (childNames fs d)"
    by (force simp: childNames_def)
qed

lemma childNames_plain:
  assumes "wellFormed fs" and "n \<in> set (childNames fs d)"
  shows "plainName n"
proof -
  from assms(2) obtain e where "e \<in> set fs" "loc e = d @ [n]"
    unfolding childNames_iff by blast
  with assms(1) show ?thesis unfolding wellFormed_def by fastforce
qed

lemma below_child:
  assumes "wellFormed fs" and "e \<in> set fs"
  shows "(\<exists>n \<in> set (childNames fs d). prefix (d @ [n]) (loc e)) \<longleftrightarrow> strict_prefix d (loc e)"
proof
  assume "\<exists>n \<in> set (childNames fs d). prefix (d @ [n]) (loc e)"
  then show "strict_prefix d (loc e)" by (auto simp: prefix_def strict_prefix_def)
next
  assume "strict_prefix d (loc e)"
  then obtain n r where le: "loc e = (d @ [n]) @ r"
    by (cases "loc e" rule: rev_cases) (auto elim!: strict_prefixE' )
  from ancestor_exists [OF assms le] have "n \<in> set (childNames fs d)"
    unfolding childNames_iff by simp
  with le show "\<exists>n \<in> set (childNames fs d). prefix (d @ [n]) (loc e)" by auto
qed

lemma busyBelow_child:
  assumes "wellFormed fs"
  shows "busyBelow fs d \<longleftrightarrow> (\<exists>n \<in> set (childNames fs d). blocked fs (d @ [n]))"
  unfolding busyBelow_def blocked_def using below_child [OF assms] by blast

lemma filter_below:
  assumes "wellFormed fs"
  shows "filter (\<lambda>e. \<not> (\<exists>n \<in> set (sort (childNames fs d)). prefix (d @ [n]) (loc e))) fs =
         filter (\<lambda>e. \<not> strict_prefix d (loc e)) fs"
  using below_child [OF assms] by (intro filter_cong) auto

section \<open>The decoder\<close>

lemma decodeMember_keeps_error: "snd st \<noteq> None \<Longrightarrow> snd (decodeMember st m) \<noteq> None"
  by (cases st; cases m)
     (auto simp: decodeMember_def saveError_def split: json.splits option.splits field.splits)

lemma foldl_decodeMember_keeps_error:
  "snd st \<noteq> None \<Longrightarrow> snd (foldl decodeMember st ms) \<noteq> None"
proof (induction ms arbitrary: st)
  case Nil
  then show ?case by simp
next
  case (Cons m ms)
  have "snd (decodeMember st m) \<noteq> None" using Cons.prems by (rule decodeMember_keeps_error)
  from Cons.IH [OF this] show ?case by simp
qed

lemma Decode_not_object:
  "v \<noteq> JNull \<Longrightarrow> \<forall>ms. v \<noteq> JObject ms \<Longrightarrow> \<exists>err. Decode (Value v) = Inl err"
  by (cases v) (auto simp: Decode_def)

lemma decodeMember_accepted:
  assumes "acceptedMember m"
  shows "snd (decodeMember (req, None) m) = None \<and>
     (\<not> selects FieldCloneURL m \<longrightarrow> CloneURL (fst (decodeMember (req, None) m)) = CloneURL req) \<and>
     (\<not> selects FieldRepoID m \<longrightarrow> RepoID (fst (decodeMember (req, None) m)) = RepoID req)"
  using assms
  by (cases m)
     (auto simp: acceptedMember_def decodeMember_def selects_def
       split: option.splits field.splits json.splits)

lemma foldl_decodeMember_accepted:
  "list_all acceptedMember ms \<Longrightarrow>
   snd (foldl decodeMember (req, None) ms) = None \<and>
   (\<not> list_ex (selects FieldCloneURL) ms \<longrightarrow>
      CloneURL (fst (foldl decodeMember (req, None) ms)) = CloneURL req) \<and>
   (\<not> list_ex (selects FieldRepoID) ms \<longrightarrow>
      RepoID (fst (foldl decodeMember (req, None) ms)) = RepoID req)"
proof (induction ms arbitrary: req)
  case Nil
  show ?case by simp
next
  case (Cons m ms)
  from Cons.prems have m: "acceptedMember m" and ms: "list_all acceptedMember ms" by simp_all
  obtain req' where step: "decodeMember (req, None) m = (req', None)"
    using decodeMember_accepted [OF m, of req] by (cases "decodeMember (req, None) m") auto
  from decodeMember_accepted [OF m, of req] step
  have keep: "\<not> selects FieldCloneURL m \<longrightarrow> CloneURL req' = CloneURL req"
    "\<not> selects FieldRepoID m \<longrightarrow> RepoID req' = RepoID req" by simp_all
  from Cons.IH [OF ms, of req'] keep show ?case by (simp add: step)
qed

lemma Decode_accepted:
  assumes "list_all acceptedMember ms"
  shows "\<exists>req. Decode (Value (JObject ms)) = Inr req \<and>
     (\<not> list_ex (selects FieldCloneURL) ms \<longrightarrow> CloneURL req = []) \<and>
     (\<not> list_ex (selects FieldRepoID) ms \<longrightarrow> RepoID req = 0)"
proof -
  let ?zero = "\<lparr>CloneURL = [], RepoID = 0\<rparr>"
  obtain req saved where f: "foldl decodeMember (?zero, None) ms = (req, saved)"
    by (cases "foldl decodeMember (?zero, None) ms")
  from foldl_decodeMember_accepted [OF assms, of ?zero] f
  have "saved = None" and "\<not> list_ex (selects FieldCloneURL) ms \<longrightarrow> CloneURL req = []"
    and "\<not> list_ex (selects FieldRepoID) ms \<longrightarrow> RepoID req = 0" by simp_all
  then show ?thesis by (simp add: Decode_def f)
qed

lemma decodeMember_rejected: "\<not> acceptedMember m \<Longrightarrow> snd (decodeMember st m) \<noteq> None"
  by (cases st; cases m)
     (auto simp: acceptedMember_def decodeMember_def saveError_def
       split: option.splits field.splits json.splits)

lemma Decode_rejected:
  assumes "m \<in> set ms" and "\<not> acceptedMember m"
  shows "\<exists>err. Decode (Value (JObject ms)) = Inl err"
proof -
  from assms(1) obtain a b where ms: "ms = a @ m # b" by (auto dest: split_list)
  let ?st = "foldl decodeMember (\<lparr>CloneURL = [], RepoID = 0\<rparr>, None) a"
  have "snd (decodeMember ?st m) \<noteq> None" using assms(2) by (rule decodeMember_rejected)
  then have "snd (foldl decodeMember (decodeMember ?st m) b) \<noteq> None"
    by (rule foldl_decodeMember_keeps_error)
  then have "snd (foldl decodeMember (\<lparr>CloneURL = [], RepoID = 0\<rparr>, None) ms) \<noteq> None"
    by (simp add: ms)
  then show ?thesis
    by (cases "foldl decodeMember (\<lparr>CloneURL = [], RepoID = 0\<rparr>, None) ms")
       (auto simp: Decode_def)
qed

lemma unknown_not_accepted: "findField (fst m) = None \<Longrightarrow> \<not> acceptedMember m"
  by (cases m) (simp add: acceptedMember_def)

lemma Decode_unknown_field:
  "m \<in> set ms \<Longrightarrow> findField (fst m) = None \<Longrightarrow> \<exists>err. Decode (Value (JObject ms)) = Inl err"
  using Decode_rejected unknown_not_accepted by blast

lemma Decode_object_iff:
  "(\<exists>err. Decode (Value (JObject ms)) = Inl err) \<longleftrightarrow> \<not> list_all acceptedMember ms"
proof
  assume "\<exists>err. Decode (Value (JObject ms)) = Inl err"
  then show "\<not> list_all acceptedMember ms" using Decode_accepted [of ms] by auto
next
  assume "\<not> list_all acceptedMember ms"
  then obtain m where "m \<in> set ms" "\<not> acceptedMember m" by (auto simp: list_all_iff)
  then show "\<exists>err. Decode (Value (JObject ms)) = Inl err" by (rule Decode_rejected)
qed

section \<open>The index pipeline\<close>

lemma digitVal_digitChar: "d < 10 \<Longrightarrow> digitVal (digitChar d) = d"
proof -
  assume "d < 10"
  then have "d \<in> {0, 1, 2, 3, 4, 5, 6, 7, 8, 9}" by auto
  then show ?thesis by (auto simp: digitVal_def digitChar_def)
qed

lemma isDigit_digitChar: "d < 10 \<Longrightarrow> isDigit (digitChar d)"
proof -
  assume "d < 10"
  then have "d \<in> {0, 1, 2, 3, 4, 5, 6, 7, 8, 9}" by auto
  then show ?thesis by (auto simp: isDigit_def digitChar_def)
qed

lemma decimalValue_snoc: "decimalValue (s @ [c]) = 10 * decimalValue s + digitVal c"
  by (simp add: decimalValue_def)

lemma FormatUint_decimal: "decimalValue (FormatUint n) = n \<and> list_all isDigit (FormatUint n)"
proof (induction n rule: FormatUint.induct)
  case (1 n)
  show ?case
  proof (cases "n < 10")
    case True
    then show ?thesis
      using digitVal_digitChar [of n] isDigit_digitChar [of n]
      by (simp add: FormatUint.simps [of n] decimalValue_def)
  next
    case False
    then have ih: "decimalValue (FormatUint (n div 10)) = n div 10"
      "list_all isDigit (FormatUint (n div 10))" using 1 by simp_all
    have "n mod 10 < 10" by simp
    then show ?thesis
      using False ih digitVal_digitChar [of "n mod 10"] isDigit_digitChar [of "n mod 10"]
      by (simp add: FormatUint.simps [of n] decimalValue_snoc)
  qed
qed

lemma IsAbs_Clean: "IsAbs p \<Longrightarrow> IsAbs (Clean p)"
  by (auto simp: IsAbs_def Clean_def Let_def split: list.splits)

lemma IsAbs_Join: "IsAbs a \<Longrightarrow> IsAbs (Join a b)"
proof -
  assume a: "IsAbs a"
  then have "a \<noteq> []" and "IsAbs (a @ CHR ''/'' # b)" by (auto simp: IsAbs_def split: list.splits)
  then show ?thesis by (simp add: Join_def IsAbs_Clean)
qed

lemma Abs_resolves: "IsAbs a \<or> wd \<noteq> None \<Longrightarrow> \<exists>p. Abs wd (Join a b) = Inr p"
  using IsAbs_Join [of a b] by (auto simp: Abs_def Getwd_def split: option.splits)

text \<open>\<^verbatim>\<open>filepath.Abs\<close> fails only on a relative path, when the working directory is unknown.\<close>

lemma Abs_fails: "Abs wd q = Inl err \<Longrightarrow> \<not> IsAbs q \<and> wd = None"
  by (auto simp: Abs_def Getwd_def split: option.splits if_splits)

lemma Run_calls: "calls (snd (Run ps cmd w)) = calls w"
  by (simp add: Run_def Let_def)

lemma Run_cwd: "cwd (snd (Run ps cmd w)) = cwd w"
  by (simp add: Run_def Let_def)

lemma Run_logs: "logs (snd (Run ps cmd w)) = logs w"
  by (simp add: Run_def Let_def)

lemma loggedRun_calls: "calls (snd (loggedRun ps cmd w)) = calls w"
  using Run_calls [of ps cmd "logPrintf (LogRun (Args cmd)) w"]
  by (auto simp: loggedRun_def logPrintf_def Let_def split: prod.splits option.splits)

lemma loggedRun_cwd: "cwd (snd (loggedRun ps cmd w)) = cwd w"
  using Run_cwd [of ps cmd "logPrintf (LogRun (Args cmd)) w"]
  by (auto simp: loggedRun_def logPrintf_def Let_def split: prod.splits option.splits)

lemma executeCmd_calls:
  "calls (executeCmd ps c name arg w) = calls w @ [CommandContext c name arg]"
  by (simp add: executeCmd_def Let_def loggedRun_calls)

lemma executeCmd_cwd: "cwd (executeCmd ps c name arg w) = cwd w"
  by (simp add: executeCmd_def Let_def loggedRun_cwd)

lemma indexRepository_resolved:
  assumes "Abs (cwd w) (Join (repoDir opts) (gitDirName req)) = Inr p"
  shows "map Args (calls (fst (indexRepository ps opts req w rw))) =
     map Args (calls w) @
       [[''zoekt-git-clone'', ''-dest'', repoDir opts,
         ''-name'', FormatUint (unat (RepoID req)),
         ''-repoid'', FormatUint (unat (RepoID req)), CloneURL req],
        [''git'', ''-C'', p, ''fetch''],
        [''zoekt-git-index'', ''-index'', indexDir opts, p]]"
    and "snd (indexRepository ps opts req w rw) = rw"
  using assms
  by (simp_all add: indexRepository_def Let_def executeCmd_calls executeCmd_cwd CommandContext_def)

lemma indexRepository_unresolved:
  assumes "Abs (cwd w) (Join (repoDir opts) (gitDirName req)) = Inl err"
  shows "map Args (calls (fst (indexRepository ps opts req w rw))) =
     map Args (calls w) @
       [[''zoekt-git-clone'', ''-dest'', repoDir opts,
         ''-name'', FormatUint (unat (RepoID req)),
         ''-repoid'', FormatUint (unat (RepoID req)), CloneURL req]]"
    and "snd (indexRepository ps opts req w rw) = httpError rw ''JSON parser error'' 400"
  using assms
  by (simp_all add: indexRepository_def Let_def executeCmd_calls executeCmd_cwd CommandContext_def
      logPrintf_def)

lemma IsAbs_Clean_relative: "\<not> IsAbs p \<Longrightarrow> Clean p \<noteq> [] \<and> \<not> IsAbs (Clean p)"
proof -
  assume r: "\<not> IsAbs p"
  let ?cs = "foldl (pathStep False) [] (pathFields p)"
  have k: "\<forall>x \<in> set ?cs. kept x \<and> CHR ''/'' \<notin> set x"
    using foldl_pathStep_kept [of "[]" False "pathFields p"]
      foldl_pathStep_no_slash [of "[]" "pathFields p" False]
    by (auto simp: pathFields_no_slash)
  show ?thesis
  proof (cases "p = [] \<or> ?cs = []")
    case True
    with r show ?thesis by (auto simp: Clean_def Let_def IsAbs_def)
  next
    case False
    then have "Clean p = joinSep ?cs" using r by (simp add: Clean_def Let_def)
    with IsAbs_joinSep [of ?cs] False k show ?thesis by simp
  qed
qed

lemma FormatUint_nonempty: "FormatUint n \<noteq> []"
  by (subst FormatUint.simps) simp

lemma isDigit_not_slash: "isDigit c \<Longrightarrow> c \<noteq> CHR ''/''"
  by (auto simp: isDigit_def)

lemma gitDirName_relative: "gitDirName req \<noteq> [] \<and> \<not> IsAbs (gitDirName req)"
proof -
  obtain c cs where f: "FormatUint (unat (RepoID req)) = c # cs"
    using FormatUint_nonempty [of "unat (RepoID req)"] by (cases "FormatUint (unat (RepoID req))") auto
  from FormatUint_decimal [of "unat (RepoID req)"] have "isDigit c" by (simp add: f)
  then show ?thesis using isDigit_not_slash by (auto simp: gitDirName_def f IsAbs_def)
qed

lemma Join_relative: "\<not> IsAbs a \<Longrightarrow> b \<noteq> [] \<Longrightarrow> \<not> IsAbs b \<Longrightarrow> \<not> IsAbs (Join a b)"
proof -
  assume a: "\<not> IsAbs a" and b: "b \<noteq> []" "\<not> IsAbs b"
  show ?thesis
  proof (cases "a = []")
    case True
    with b IsAbs_Clean_relative [of b] show ?thesis by (simp add: Join_def)
  next
    case False
    with a have "\<not> IsAbs (a @ CHR ''/'' # b)" by (cases a) (auto simp: IsAbs_def)
    from IsAbs_Clean_relative [OF this] False show ?thesis by (simp add: Join_def)
  qed
qed

text \<open>
  The repository path resolves exactly when the repository directory is absolute or the
  working directory is known.
\<close>

lemma repository_path_resolves_iff:
  "(\<exists>p. Abs (cwd w) (Join (repoDir opts) (gitDirName req)) = Inr p) \<longleftrightarrow>
   IsAbs (repoDir opts) \<or> cwd w \<noteq> None"
proof
  assume "IsAbs (repoDir opts) \<or> cwd w \<noteq> None"
  then show "\<exists>p. Abs (cwd w) (Join (repoDir opts) (gitDirName req)) = Inr p" by (rule Abs_resolves)
next
  assume r: "\<exists>p. Abs (cwd w) (Join (repoDir opts) (gitDirName req)) = Inr p"
  show "IsAbs (repoDir opts) \<or> cwd w \<noteq> None"
  proof (rule ccontr)
    assume "\<not> (IsAbs (repoDir opts) \<or> cwd w \<noteq> None)"
    then have a: "\<not> IsAbs (repoDir opts)" and n: "cwd w = None" by simp_all
    from Join_relative [OF a] gitDirName_relative [of req]
    have "\<not> IsAbs (Join (repoDir opts) (gitDirName req))" by simp
    with n r show False by (simp add: Abs_def Getwd_def)
  qed
qed

text \<open>
  C1, as amended. For every request, every configuration and every behaviour of the
  external programs: the repository id is written in decimal; when
  \<open>{repoDir}/{RepoID}.git\<close> resolves to the absolute path \<open>p\<close>, \<open>indexRepository\<close> hands
  exactly three commands to \<open>executeCmd\<close>, in the order clone, fetch, index, with the
  argument vectors below, and the one path \<open>p\<close> is in the second and in the third; when
  the path does not resolve, the clone command is the only one handed over. The path
  resolves exactly when the repository directory is absolute or the working directory is
  known.
\<close>

theorem indexRepository_three_invocations:
  "decimalValue (FormatUint (unat (RepoID req))) = unat (RepoID req) \<and>
   list_all isDigit (FormatUint (unat (RepoID req))) \<and>
   (\<forall>p. Abs (cwd w) (Join (repoDir opts) (FormatUint (unat (RepoID req)) @ ''.git'')) = Inr p \<longrightarrow>
      map Args (calls (fst (indexRepository ps opts req w rw))) =
        map Args (calls w) @
          [[''zoekt-git-clone'', ''-dest'', repoDir opts,
            ''-name'', FormatUint (unat (RepoID req)),
            ''-repoid'', FormatUint (unat (RepoID req)), CloneURL req],
           [''git'', ''-C'', p, ''fetch''],
           [''zoekt-git-index'', ''-index'', indexDir opts, p]]) \<and>
   (\<forall>err. Abs (cwd w) (Join (repoDir opts) (FormatUint (unat (RepoID req)) @ ''.git'')) = Inl err \<longrightarrow>
      map Args (calls (fst (indexRepository ps opts req w rw))) =
        map Args (calls w) @
          [[''zoekt-git-clone'', ''-dest'', repoDir opts,
            ''-name'', FormatUint (unat (RepoID req)),
            ''-repoid'', FormatUint (unat (RepoID req)), CloneURL req]]) \<and>
   ((\<exists>p. Abs (cwd w) (Join (repoDir opts) (FormatUint (unat (RepoID req)) @ ''.git'')) = Inr p) \<longleftrightarrow>
      IsAbs (repoDir opts) \<or> cwd w \<noteq> None)"
proof -
  have g: "FormatUint (unat (RepoID req)) @ ''.git'' = gitDirName req" by (simp add: gitDirName_def)
  have three: "\<forall>p. Abs (cwd w) (Join (repoDir opts) (gitDirName req)) = Inr p \<longrightarrow>
      map Args (calls (fst (indexRepository ps opts req w rw))) =
        map Args (calls w) @
          [[''zoekt-git-clone'', ''-dest'', repoDir opts,
            ''-name'', FormatUint (unat (RepoID req)),
            ''-repoid'', FormatUint (unat (RepoID req)), CloneURL req],
           [''git'', ''-C'', p, ''fetch''],
           [''zoekt-git-index'', ''-index'', indexDir opts, p]]"
    using indexRepository_resolved(1) by blast
  have one: "\<forall>err. Abs (cwd w) (Join (repoDir opts) (gitDirName req)) = Inl err \<longrightarrow>
      map Args (calls (fst (indexRepository ps opts req w rw))) =
        map Args (calls w) @
          [[''zoekt-git-clone'', ''-dest'', repoDir opts,
            ''-name'', FormatUint (unat (RepoID req)),
            ''-repoid'', FormatUint (unat (RepoID req)), CloneURL req]]"
    using indexRepository_unresolved(1) by blast
  from three one repository_path_resolves_iff [of w opts req] FormatUint_decimal [of "unat (RepoID req)"]
  show ?thesis unfolding g by blast
qed

lemma example_id: "FormatUint 100 = ''100''"
  by code_simp

lemma example_path: "Abs None (Join ''/repo_dir'' ''100.git'') = Inr ''/repo_dir/100.git''"
  by code_simp

theorem indexRepository_three_invocations_witness:
  "map Args (calls (fst (indexRepository noProgram exampleOptions exampleRequest bootWorld []))) =
   [[''zoekt-git-clone'', ''-dest'', ''/repo_dir'', ''-name'', ''100'', ''-repoid'', ''100'',
     ''https://example.com/repository.git''],
    [''git'', ''-C'', ''/repo_dir/100.git'', ''fetch''],
    [''zoekt-git-index'', ''-index'', ''/index_dir'', ''/repo_dir/100.git'']]"
proof -
  have a: "Abs (cwd bootWorld) (Join (repoDir exampleOptions)
      (FormatUint (unat (RepoID exampleRequest)) @ ''.git'')) = Inr ''/repo_dir/100.git''"
    by (simp add: exampleOptions_def exampleRequest_def bootWorld_def example_id example_path)
  from indexRepository_three_invocations [where req = exampleRequest and w = bootWorld
      and opts = exampleOptions and ps = noProgram and rw = "[]"] a
  have "map Args (calls (fst (indexRepository noProgram exampleOptions exampleRequest bootWorld []))) =
      map Args (calls bootWorld) @
        [[''zoekt-git-clone'', ''-dest'', repoDir exampleOptions,
          ''-name'', FormatUint (unat (RepoID exampleRequest)),
          ''-repoid'', FormatUint (unat (RepoID exampleRequest)), CloneURL exampleRequest],
         [''git'', ''-C'', ''/repo_dir/100.git'', ''fetch''],
         [''zoekt-git-index'', ''-index'', indexDir exampleOptions, ''/repo_dir/100.git'']]"
    by blast
  then show ?thesis
    by (simp add: exampleOptions_def exampleRequest_def bootWorld_def example_id)
qed

lemma example_decode: "Decode (Body exampleIndexPost) = Inr exampleRequest"
  by (simp add: exampleIndexPost_def exampleRequest_def Decode_def decodeMember_def findField_def
      toLower_def ParseUint32_def isDigit_def decimalValue_def digitVal_def)

lemma relative_unresolved:
  "Abs (cwd bootWorld) (Join (repoDir relativeOptions) (gitDirName exampleRequest)) = Inl ENOENT"
  unfolding bootWorld_def relativeOptions_def exampleRequest_def gitDirName_def by code_simp

lemma relative_from_flags:
  "parseOptions \<lparr>data_dir = ''data'', index_dir = [], index_timeout = 3600000000000,
     listen_addr = '':6060''\<rparr> = Some relativeOptions"
  unfolding relativeOptions_def by code_simp

text \<open>
  C1 as stated fails: with the data directory given as \<open>data\<close>, so that the repository
  directory is the relative path \<open>data/repos\<close>, and a working directory that cannot be
  determined, the request of the example leads to one command, not three, and to the
  response 400.
\<close>

theorem indexRepository_single_invocation:
  "parseOptions \<lparr>data_dir = ''data'', index_dir = [], index_timeout = 3600000000000,
     listen_addr = '':6060''\<rparr> = Some relativeOptions \<and>
   map Args (calls (fst (indexRepository quickProgram relativeOptions exampleRequest bootWorld []))) =
     [[''zoekt-git-clone'', ''-dest'', ''data/repos'', ''-name'', ''100'', ''-repoid'', ''100'',
       ''https://example.com/repository.git'']] \<and>
   length (calls (fst (indexRepository quickProgram relativeOptions exampleRequest bootWorld []))) = 1 \<and>
   status (snd (indexRepository quickProgram relativeOptions exampleRequest bootWorld [])) = 400"
proof -
  note u = indexRepository_unresolved [OF relative_unresolved, of quickProgram "[]"]
  from u(1) have a: "map Args (calls (fst (indexRepository quickProgram relativeOptions exampleRequest bootWorld []))) =
     [[''zoekt-git-clone'', ''-dest'', ''data/repos'', ''-name'', ''100'', ''-repoid'', ''100'',
       ''https://example.com/repository.git'']]"
    by (simp add: bootWorld_def relativeOptions_def exampleRequest_def example_id)
  then have "length (map Args (calls (fst (indexRepository quickProgram relativeOptions exampleRequest bootWorld [])))) = 1"
    by simp
  then have b: "length (calls (fst (indexRepository quickProgram relativeOptions exampleRequest bootWorld []))) = 1"
    by simp
  from u(2) have c: "status (snd (indexRepository quickProgram relativeOptions exampleRequest bootWorld [])) = 400"
    by (simp add: status_def httpError_def)
  from relative_from_flags a b c show ?thesis by blast
qed

lemma loggedRun_logs:
  "\<exists>lines. logs (snd (loggedRun ps cmd w)) = logs w @ LogRun (Args cmd) # lines \<and>
     (lines = [] \<or> (\<exists>err out errOut. lines = [LogCommandFailed (Args cmd) err out errOut]))"
  using Run_logs [of ps cmd "logPrintf (LogRun (Args cmd)) w"]
  by (auto simp: loggedRun_def logPrintf_def Let_def split: prod.splits option.splits)

lemma executeCmd_logs:
  "\<exists>lines. logs (executeCmd ps c name arg w) = logs w @ LogRun (name # arg) # lines \<and>
     (lines = [] \<or> (\<exists>err out errOut. lines = [LogCommandFailed (name # arg) err out errOut]))"
  using loggedRun_logs [of ps "CommandContext c name arg" "w\<lparr>calls := calls w @ [CommandContext c name arg]\<rparr>"]
  by (simp add: executeCmd_def Let_def CommandContext_def)

lemma serveIndex_decoded:
  "URLPath r = ''/index'' \<Longrightarrow> Decode (Body r) = Inr req \<Longrightarrow>
   startIndexingApi ps opts r w = indexRepository ps opts req w []"
  by (simp add: startIndexingApi_def serveIndex_def)

lemma serveIndex_rejected:
  "URLPath r = ''/index'' \<Longrightarrow> Decode (Body r) = Inl err \<Longrightarrow>
   startIndexingApi ps opts r w = (logPrintf (LogDecodeError err) w, [(''JSON parser error'', 400)])"
  by (simp add: startIndexingApi_def serveIndex_def httpError_def)

lemma indexRepository_calls_any:
  "map Args (calls (fst (indexRepository ps opts req w rw))) =
   map Args (calls (fst (indexRepository ps' opts req w rw)))"
  "snd (indexRepository ps opts req w rw) = snd (indexRepository ps' opts req w rw)"
  by (cases "Abs (cwd w) (Join (repoDir opts) (gitDirName req))";
      simp add: indexRepository_resolved indexRepository_unresolved)+

lemma executeCmd_notFound:
  assumes "notFound (ps (CommandContext c name arg)
      (logPrintf (LogRun (name # arg)) (w\<lparr>calls := calls w @ [CommandContext c name arg]\<rparr>)))"
  shows "executeCmd ps c name arg w =
     w\<lparr>calls := calls w @ [CommandContext c name arg],
       logs := logs w @ [LogRun (name # arg), LogCommandFailed (name # arg) StartFailed [] []]\<rparr>"
  using assms
  by (simp add: executeCmd_def loggedRun_def Run_def Let_def logPrintf_def CommandContext_def)

lemma executeCmd_outcome:
  assumes "ps (CommandContext c name arg)
      (logPrintf (LogRun (name # arg)) (w\<lparr>calls := calls w @ [CommandContext c name arg]\<rparr>)) = out"
  shows "notFound out \<Longrightarrow>
           logs (executeCmd ps c name arg w) =
             logs w @ [LogRun (name # arg), LogCommandFailed (name # arg) StartFailed [] []] \<and>
           spawned (executeCmd ps c name arg w) = spawned w"
    and "\<not> notFound out \<Longrightarrow> deadline c \<le> clock w \<Longrightarrow>
           logs (executeCmd ps c name arg w) =
             logs w @ [LogRun (name # arg), LogCommandFailed (name # arg) ContextDone [] []] \<and>
           spawned (executeCmd ps c name arg w) = spawned w"
    and "\<not> notFound out \<Longrightarrow> clock w < deadline c \<Longrightarrow> deadline c \<le> clock w + int (elapsed out) \<Longrightarrow>
           logs (executeCmd ps c name arg w) =
             logs w @ [LogRun (name # arg),
                       LogCommandFailed (name # arg) Killed (outText out) (errText out)] \<and>
           spawned (executeCmd ps c name arg w) = spawned w @ [(name # arg, clock w)]"
    and "\<not> notFound out \<Longrightarrow> clock w + int (elapsed out) < deadline c \<Longrightarrow> exitCode out \<noteq> 0 \<Longrightarrow>
           logs (executeCmd ps c name arg w) =
             logs w @ [LogRun (name # arg),
                       LogCommandFailed (name # arg) (ExitStatus (exitCode out)) (outText out) (errText out)] \<and>
           spawned (executeCmd ps c name arg w) = spawned w @ [(name # arg, clock w)]"
    and "\<not> notFound out \<Longrightarrow> clock w + int (elapsed out) < deadline c \<Longrightarrow> exitCode out = 0 \<Longrightarrow>
           logs (executeCmd ps c name arg w) = logs w @ [LogRun (name # arg)] \<and>
           spawned (executeCmd ps c name arg w) = spawned w @ [(name # arg, clock w)]"
  using assms
  by (simp_all add: executeCmd_def loggedRun_def Run_def Let_def logPrintf_def CommandContext_def)

lemma indexRepository_none_started:
  assumes nf: "\<And>cmd v. notFound (ps cmd v)"
    and p: "Abs (cwd w) (Join (repoDir opts) (gitDirName req)) = Inr p"
  shows "logs (fst (indexRepository ps opts req w rw)) =
     logs w @
       [LogRun [''zoekt-git-clone'', ''-dest'', repoDir opts,
                ''-name'', FormatUint (unat (RepoID req)),
                ''-repoid'', FormatUint (unat (RepoID req)), CloneURL req],
        LogCommandFailed [''zoekt-git-clone'', ''-dest'', repoDir opts,
                ''-name'', FormatUint (unat (RepoID req)),
                ''-repoid'', FormatUint (unat (RepoID req)), CloneURL req] StartFailed [] [],
        LogRun [''git'', ''-C'', p, ''fetch''],
        LogCommandFailed [''git'', ''-C'', p, ''fetch''] StartFailed [] [],
        LogRun [''zoekt-git-index'', ''-index'', indexDir opts, p],
        LogCommandFailed [''zoekt-git-index'', ''-index'', indexDir opts, p] StartFailed [] []]"
    and "spawned (fst (indexRepository ps opts req w rw)) = spawned w"
  using p by (simp_all add: indexRepository_def Let_def executeCmd_notFound [OF nf])

text \<open>
  C2. \<open>executeCmd\<close> hands its caller nothing but the changed world, and what the command
  did shows in the log alone. With \<open>out\<close> what the program does when it is started: an
  executable that is not found, a scope that is already done, a kill at the deadline and
  an exit code other than 0 each add, after the line of the command, one line with the
  error and the captured output; a run that ends with exit code 0 adds none. In every
  case the command was handed over. For an /index request whose body decodes and whose
  repository path resolves, whatever the programs do, the three commands are handed
  over with their argument vectors, each through \<open>executeCmd\<close> under the one scope of the
  request, and the response is 200 with an empty body; when no
  program can be started at all, the log holds the line and the failure of each of the
  three, and no process was started. The response is 200 exactly when the repository
  path resolves.
\<close>

theorem command_failure_only_logged:
  assumes "URLPath r = ''/index''" and "Decode (Body r) = Inr req"
  shows "(\<forall>out. ps (CommandContext c name arg)
              (logPrintf (LogRun (name # arg)) (v\<lparr>calls := calls v @ [CommandContext c name arg]\<rparr>)) = out \<longrightarrow>
            (notFound out \<longrightarrow>
               logs (executeCmd ps c name arg v) =
                 logs v @ [LogRun (name # arg), LogCommandFailed (name # arg) StartFailed [] []] \<and>
               spawned (executeCmd ps c name arg v) = spawned v) \<and>
            (\<not> notFound out \<and> deadline c \<le> clock v \<longrightarrow>
               logs (executeCmd ps c name arg v) =
                 logs v @ [LogRun (name # arg), LogCommandFailed (name # arg) ContextDone [] []] \<and>
               spawned (executeCmd ps c name arg v) = spawned v) \<and>
            (\<not> notFound out \<and> clock v < deadline c \<and> deadline c \<le> clock v + int (elapsed out) \<longrightarrow>
               logs (executeCmd ps c name arg v) =
                 logs v @ [LogRun (name # arg),
                           LogCommandFailed (name # arg) Killed (outText out) (errText out)] \<and>
               spawned (executeCmd ps c name arg v) = spawned v @ [(name # arg, clock v)]) \<and>
            (\<not> notFound out \<and> clock v + int (elapsed out) < deadline c \<and> exitCode out \<noteq> 0 \<longrightarrow>
               logs (executeCmd ps c name arg v) =
                 logs v @ [LogRun (name # arg),
                           LogCommandFailed (name # arg) (ExitStatus (exitCode out))
                             (outText out) (errText out)] \<and>
               spawned (executeCmd ps c name arg v) = spawned v @ [(name # arg, clock v)]) \<and>
            (\<not> notFound out \<and> clock v + int (elapsed out) < deadline c \<and> exitCode out = 0 \<longrightarrow>
               logs (executeCmd ps c name arg v) = logs v @ [LogRun (name # arg)] \<and>
               spawned (executeCmd ps c name arg v) = spawned v @ [(name # arg, clock v)])) \<and>
         calls (executeCmd ps c name arg v) = calls v @ [CommandContext c name arg] \<and>
         (\<forall>p. Abs (cwd w) (Join (repoDir opts) (gitDirName req)) = Inr p \<longrightarrow>
            map Args (calls (fst (startIndexingApi ps opts r w))) =
              map Args (calls w) @
                [[''zoekt-git-clone'', ''-dest'', repoDir opts,
                  ''-name'', FormatUint (unat (RepoID req)),
                  ''-repoid'', FormatUint (unat (RepoID req)), CloneURL req],
                 [''git'', ''-C'', p, ''fetch''],
                 [''zoekt-git-index'', ''-index'', indexDir opts, p]] \<and>
            status (snd (startIndexingApi ps opts r w)) = 200 \<and>
            replyBody (snd (startIndexingApi ps opts r w)) = [] \<and>
            fst (startIndexingApi ps opts r w) =
              executeCmd ps (WithTimeout (clock w) (indexTimeout opts)) ''zoekt-git-index''
                [''-index'', indexDir opts, p]
                (executeCmd ps (WithTimeout (clock w) (indexTimeout opts)) ''git'' [''-C'', p, ''fetch'']
                   (executeCmd ps (WithTimeout (clock w) (indexTimeout opts)) ''zoekt-git-clone''
                      [''-dest'', repoDir opts, ''-name'', FormatUint (unat (RepoID req)),
                       ''-repoid'', FormatUint (unat (RepoID req)), CloneURL req] w)) \<and>
            ((\<forall>cmd u. notFound (ps cmd u)) \<longrightarrow>
               logs (fst (startIndexingApi ps opts r w)) =
                 logs w @
                   [LogRun [''zoekt-git-clone'', ''-dest'', repoDir opts,
                            ''-name'', FormatUint (unat (RepoID req)),
                            ''-repoid'', FormatUint (unat (RepoID req)), CloneURL req],
                    LogCommandFailed [''zoekt-git-clone'', ''-dest'', repoDir opts,
                            ''-name'', FormatUint (unat (RepoID req)),
                            ''-repoid'', FormatUint (unat (RepoID req)), CloneURL req] StartFailed [] [],
                    LogRun [''git'', ''-C'', p, ''fetch''],
                    LogCommandFailed [''git'', ''-C'', p, ''fetch''] StartFailed [] [],
                    LogRun [''zoekt-git-index'', ''-index'', indexDir opts, p],
                    LogCommandFailed [''zoekt-git-index'', ''-index'', indexDir opts, p] StartFailed [] []] \<and>
               spawned (fst (startIndexingApi ps opts r w)) = spawned w)) \<and>
         (status (snd (startIndexingApi ps opts r w)) = 200 \<longleftrightarrow>
            (\<exists>p. Abs (cwd w) (Join (repoDir opts) (gitDirName req)) = Inr p))"
proof -
  let ?R = "startIndexingApi ps opts r w"
  have R: "?R = indexRepository ps opts req w []"
    using assms by (rule serveIndex_decoded)
  have one: "\<forall>out. ps (CommandContext c name arg)
              (logPrintf (LogRun (name # arg)) (v\<lparr>calls := calls v @ [CommandContext c name arg]\<rparr>)) = out \<longrightarrow>
            (notFound out \<longrightarrow>
               logs (executeCmd ps c name arg v) =
                 logs v @ [LogRun (name # arg), LogCommandFailed (name # arg) StartFailed [] []] \<and>
               spawned (executeCmd ps c name arg v) = spawned v) \<and>
            (\<not> notFound out \<and> deadline c \<le> clock v \<longrightarrow>
               logs (executeCmd ps c name arg v) =
                 logs v @ [LogRun (name # arg), LogCommandFailed (name # arg) ContextDone [] []] \<and>
               spawned (executeCmd ps c name arg v) = spawned v) \<and>
            (\<not> notFound out \<and> clock v < deadline c \<and> deadline c \<le> clock v + int (elapsed out) \<longrightarrow>
               logs (executeCmd ps c name arg v) =
                 logs v @ [LogRun (name # arg),
                           LogCommandFailed (name # arg) Killed (outText out) (errText out)] \<and>
               spawned (executeCmd ps c name arg v) = spawned v @ [(name # arg, clock v)]) \<and>
            (\<not> notFound out \<and> clock v + int (elapsed out) < deadline c \<and> exitCode out \<noteq> 0 \<longrightarrow>
               logs (executeCmd ps c name arg v) =
                 logs v @ [LogRun (name # arg),
                           LogCommandFailed (name # arg) (ExitStatus (exitCode out))
                             (outText out) (errText out)] \<and>
               spawned (executeCmd ps c name arg v) = spawned v @ [(name # arg, clock v)]) \<and>
            (\<not> notFound out \<and> clock v + int (elapsed out) < deadline c \<and> exitCode out = 0 \<longrightarrow>
               logs (executeCmd ps c name arg v) = logs v @ [LogRun (name # arg)] \<and>
               spawned (executeCmd ps c name arg v) = spawned v @ [(name # arg, clock v)])"
    using executeCmd_outcome [of ps c name arg v] by blast
  have handed: "calls (executeCmd ps c name arg v) = calls v @ [CommandContext c name arg]"
    by (rule executeCmd_calls)
  have run: "\<forall>p. Abs (cwd w) (Join (repoDir opts) (gitDirName req)) = Inr p \<longrightarrow>
            map Args (calls (fst ?R)) =
              map Args (calls w) @
                [[''zoekt-git-clone'', ''-dest'', repoDir opts,
                  ''-name'', FormatUint (unat (RepoID req)),
                  ''-repoid'', FormatUint (unat (RepoID req)), CloneURL req],
                 [''git'', ''-C'', p, ''fetch''],
                 [''zoekt-git-index'', ''-index'', indexDir opts, p]] \<and>
            status (snd ?R) = 200 \<and> replyBody (snd ?R) = [] \<and>
            fst ?R =
              executeCmd ps (WithTimeout (clock w) (indexTimeout opts)) ''zoekt-git-index''
                [''-index'', indexDir opts, p]
                (executeCmd ps (WithTimeout (clock w) (indexTimeout opts)) ''git'' [''-C'', p, ''fetch'']
                   (executeCmd ps (WithTimeout (clock w) (indexTimeout opts)) ''zoekt-git-clone''
                      [''-dest'', repoDir opts, ''-name'', FormatUint (unat (RepoID req)),
                       ''-repoid'', FormatUint (unat (RepoID req)), CloneURL req] w)) \<and>
            ((\<forall>cmd u. notFound (ps cmd u)) \<longrightarrow>
               logs (fst ?R) =
                 logs w @
                   [LogRun [''zoekt-git-clone'', ''-dest'', repoDir opts,
                            ''-name'', FormatUint (unat (RepoID req)),
                            ''-repoid'', FormatUint (unat (RepoID req)), CloneURL req],
                    LogCommandFailed [''zoekt-git-clone'', ''-dest'', repoDir opts,
                            ''-name'', FormatUint (unat (RepoID req)),
                            ''-repoid'', FormatUint (unat (RepoID req)), CloneURL req] StartFailed [] [],
                    LogRun [''git'', ''-C'', p, ''fetch''],
                    LogCommandFailed [''git'', ''-C'', p, ''fetch''] StartFailed [] [],
                    LogRun [''zoekt-git-index'', ''-index'', indexDir opts, p],
                    LogCommandFailed [''zoekt-git-index'', ''-index'', indexDir opts, p] StartFailed [] []] \<and>
               spawned (fst ?R) = spawned w)"
  proof (intro allI impI conjI)
    fix p assume p: "Abs (cwd w) (Join (repoDir opts) (gitDirName req)) = Inr p"
    from indexRepository_resolved [OF p, of ps "[]"]
    show "map Args (calls (fst ?R)) =
              map Args (calls w) @
                [[''zoekt-git-clone'', ''-dest'', repoDir opts,
                  ''-name'', FormatUint (unat (RepoID req)),
                  ''-repoid'', FormatUint (unat (RepoID req)), CloneURL req],
                 [''git'', ''-C'', p, ''fetch''],
                 [''zoekt-git-index'', ''-index'', indexDir opts, p]]"
      and "status (snd ?R) = 200" and "replyBody (snd ?R) = []"
      by (simp_all add: R status_def replyBody_def)
    show "fst ?R =
              executeCmd ps (WithTimeout (clock w) (indexTimeout opts)) ''zoekt-git-index''
                [''-index'', indexDir opts, p]
                (executeCmd ps (WithTimeout (clock w) (indexTimeout opts)) ''git'' [''-C'', p, ''fetch'']
                   (executeCmd ps (WithTimeout (clock w) (indexTimeout opts)) ''zoekt-git-clone''
                      [''-dest'', repoDir opts, ''-name'', FormatUint (unat (RepoID req)),
                       ''-repoid'', FormatUint (unat (RepoID req)), CloneURL req] w))"
      using p by (simp add: R indexRepository_def Let_def executeCmd_cwd)
    assume nf: "\<forall>cmd u. notFound (ps cmd u)"
    then have nf': "\<And>cmd u. notFound (ps cmd u)" by blast
    from indexRepository_none_started [of ps w opts req p "[]", OF nf' p]
    show "logs (fst ?R) =
                 logs w @
                   [LogRun [''zoekt-git-clone'', ''-dest'', repoDir opts,
                            ''-name'', FormatUint (unat (RepoID req)),
                            ''-repoid'', FormatUint (unat (RepoID req)), CloneURL req],
                    LogCommandFailed [''zoekt-git-clone'', ''-dest'', repoDir opts,
                            ''-name'', FormatUint (unat (RepoID req)),
                            ''-repoid'', FormatUint (unat (RepoID req)), CloneURL req] StartFailed [] [],
                    LogRun [''git'', ''-C'', p, ''fetch''],
                    LogCommandFailed [''git'', ''-C'', p, ''fetch''] StartFailed [] [],
                    LogRun [''zoekt-git-index'', ''-index'', indexDir opts, p],
                    LogCommandFailed [''zoekt-git-index'', ''-index'', indexDir opts, p] StartFailed [] []]"
      and "spawned (fst ?R) = spawned w"
      by (simp_all add: R)
  qed
  have st: "status (snd ?R) = 200 \<longleftrightarrow> (\<exists>p. Abs (cwd w) (Join (repoDir opts) (gitDirName req)) = Inr p)"
    by (cases "Abs (cwd w) (Join (repoDir opts) (gitDirName req))")
       (simp_all add: R indexRepository_resolved indexRepository_unresolved status_def httpError_def)
  from one handed run st show ?thesis by blast
qed

lemma example_gitDirName: "gitDirName exampleRequest = ''100.git''"
  by (simp add: gitDirName_def exampleRequest_def example_id)

lemma example_resolves:
  "Abs (cwd bootWorld) (Join (repoDir exampleOptions) (gitDirName exampleRequest)) = Inr ''/repo_dir/100.git''"
  by (simp add: example_gitDirName exampleOptions_def bootWorld_def example_path)

theorem command_failure_only_logged_witness:
  "logs (executeCmd failingProgram (WithTimeout 0 10) ''git'' [''fetch''] bootWorld) =
     [LogRun [''git'', ''fetch''],
      LogCommandFailed [''git'', ''fetch''] (ExitStatus 128) ''Fetching origin''
        ''fatal: repository not found''] \<and>
   map Args (calls (fst (startIndexingApi noProgram exampleOptions exampleIndexPost bootWorld))) =
     [[''zoekt-git-clone'', ''-dest'', ''/repo_dir'', ''-name'', ''100'', ''-repoid'', ''100'',
       ''https://example.com/repository.git''],
      [''git'', ''-C'', ''/repo_dir/100.git'', ''fetch''],
      [''zoekt-git-index'', ''-index'', ''/index_dir'', ''/repo_dir/100.git'']] \<and>
   status (snd (startIndexingApi noProgram exampleOptions exampleIndexPost bootWorld)) = 200 \<and>
   logs (fst (startIndexingApi noProgram exampleOptions exampleIndexPost bootWorld)) =
     [LogRun [''zoekt-git-clone'', ''-dest'', ''/repo_dir'', ''-name'', ''100'', ''-repoid'', ''100'',
        ''https://example.com/repository.git''],
      LogCommandFailed [''zoekt-git-clone'', ''-dest'', ''/repo_dir'', ''-name'', ''100'', ''-repoid'', ''100'',
        ''https://example.com/repository.git''] StartFailed [] [],
      LogRun [''git'', ''-C'', ''/repo_dir/100.git'', ''fetch''],
      LogCommandFailed [''git'', ''-C'', ''/repo_dir/100.git'', ''fetch''] StartFailed [] [],
      LogRun [''zoekt-git-index'', ''-index'', ''/index_dir'', ''/repo_dir/100.git''],
      LogCommandFailed [''zoekt-git-index'', ''-index'', ''/index_dir'', ''/repo_dir/100.git'']
        StartFailed [] []] \<and>
   spawned (fst (startIndexingApi noProgram exampleOptions exampleIndexPost bootWorld)) = []"
proof -
  have p: "URLPath exampleIndexPost = ''/index''" by (simp add: exampleIndexPost_def)
  have nf: "\<forall>cmd u. notFound (noProgram cmd u)" by (simp add: noProgram_def)
  note t = command_failure_only_logged [OF p example_decode,
      where ps = noProgram and opts = exampleOptions and w = bootWorld]
  from t example_resolves nf
  have a: "map Args (calls (fst (startIndexingApi noProgram exampleOptions exampleIndexPost bootWorld))) =
      map Args (calls bootWorld) @
        [[''zoekt-git-clone'', ''-dest'', repoDir exampleOptions,
          ''-name'', FormatUint (unat (RepoID exampleRequest)),
          ''-repoid'', FormatUint (unat (RepoID exampleRequest)), CloneURL exampleRequest],
         [''git'', ''-C'', ''/repo_dir/100.git'', ''fetch''],
         [''zoekt-git-index'', ''-index'', indexDir exampleOptions, ''/repo_dir/100.git'']] \<and>
     status (snd (startIndexingApi noProgram exampleOptions exampleIndexPost bootWorld)) = 200 \<and>
     logs (fst (startIndexingApi noProgram exampleOptions exampleIndexPost bootWorld)) =
       logs bootWorld @
         [LogRun [''zoekt-git-clone'', ''-dest'', repoDir exampleOptions,
            ''-name'', FormatUint (unat (RepoID exampleRequest)),
            ''-repoid'', FormatUint (unat (RepoID exampleRequest)), CloneURL exampleRequest],
          LogCommandFailed [''zoekt-git-clone'', ''-dest'', repoDir exampleOptions,
            ''-name'', FormatUint (unat (RepoID exampleRequest)),
            ''-repoid'', FormatUint (unat (RepoID exampleRequest)), CloneURL exampleRequest] StartFailed [] [],
          LogRun [''git'', ''-C'', ''/repo_dir/100.git'', ''fetch''],
          LogCommandFailed [''git'', ''-C'', ''/repo_dir/100.git'', ''fetch''] StartFailed [] [],
          LogRun [''zoekt-git-index'', ''-index'', indexDir exampleOptions, ''/repo_dir/100.git''],
          LogCommandFailed [''zoekt-git-index'', ''-index'', indexDir exampleOptions, ''/repo_dir/100.git'']
            StartFailed [] []] \<and>
     spawned (fst (startIndexingApi noProgram exampleOptions exampleIndexPost bootWorld)) = spawned bootWorld"
    by blast
  note u = command_failure_only_logged [OF p example_decode,
      where ps = failingProgram and c = "WithTimeout 0 10" and name = "''git''" and arg = "[''fetch'']"
        and v = bootWorld]
  from u have b: "logs (executeCmd failingProgram (WithTimeout 0 10) ''git'' [''fetch''] bootWorld) =
     [LogRun [''git'', ''fetch''],
      LogCommandFailed [''git'', ''fetch''] (ExitStatus 128) ''Fetching origin''
        ''fatal: repository not found'']"
    by (simp add: failingProgram_def bootWorld_def WithTimeout_def)
  from a b show ?thesis
    by (simp add: bootWorld_def exampleOptions_def exampleRequest_def example_id)
qed

text \<open>
  C4. An /index request whose body decodes: if the absolute path of
  \<open>{repoDir}/{RepoID}.git\<close> does not resolve, the response is 400, and the clone command
  is the only command handed over (no fetch, no index build). No other failure of a
  stage changes the response: it differs from 200 only if the path did not resolve.
\<close>

theorem path_resolution_failure_aborts:
  assumes "URLPath r = ''/index''" and "Decode (Body r) = Inr req"
  shows "(\<forall>err. Abs (cwd w) (Join (repoDir opts) (FormatUint (unat (RepoID req)) @ ''.git'')) = Inl err \<longrightarrow>
            status (snd (startIndexingApi ps opts r w)) = 400 \<and>
            replyBody (snd (startIndexingApi ps opts r w)) = ''JSON parser error'' \<and>
            map Args (calls (fst (startIndexingApi ps opts r w))) =
              map Args (calls w) @
                [[''zoekt-git-clone'', ''-dest'', repoDir opts,
                  ''-name'', FormatUint (unat (RepoID req)),
                  ''-repoid'', FormatUint (unat (RepoID req)), CloneURL req]]) \<and>
         (status (snd (startIndexingApi ps opts r w)) \<noteq> 200 \<longrightarrow>
            (\<exists>err. Abs (cwd w) (Join (repoDir opts) (FormatUint (unat (RepoID req)) @ ''.git'')) = Inl err))"
proof -
  have R: "startIndexingApi ps opts r w = indexRepository ps opts req w []"
    using assms by (rule serveIndex_decoded)
  show ?thesis
  proof (cases "Abs (cwd w) (Join (repoDir opts) (gitDirName req))")
    case (Inl err)
    from indexRepository_unresolved [OF Inl, of ps "[]"] Inl show ?thesis
      by (simp add: R gitDirName_def status_def replyBody_def httpError_def)
  next
    case (Inr p)
    from indexRepository_resolved [OF Inr, of ps "[]"] Inr show ?thesis
      by (simp add: R gitDirName_def status_def)
  qed
qed

theorem path_resolution_failure_aborts_witness:
  "Abs (cwd bootWorld) (Join (repoDir relativeOptions) (FormatUint (unat (RepoID exampleRequest)) @ ''.git'')) = Inl ENOENT \<and>
   status (snd (startIndexingApi quickProgram relativeOptions exampleIndexPost bootWorld)) = 400 \<and>
   replyBody (snd (startIndexingApi quickProgram relativeOptions exampleIndexPost bootWorld)) = ''JSON parser error'' \<and>
   map Args (calls (fst (startIndexingApi quickProgram relativeOptions exampleIndexPost bootWorld))) =
     [[''zoekt-git-clone'', ''-dest'', ''data/repos'', ''-name'', ''100'', ''-repoid'', ''100'',
       ''https://example.com/repository.git'']]"
proof -
  have p: "URLPath exampleIndexPost = ''/index''" by (simp add: exampleIndexPost_def)
  have a: "Abs (cwd bootWorld) (Join (repoDir relativeOptions) (FormatUint (unat (RepoID exampleRequest)) @ ''.git'')) = Inl ENOENT"
    using relative_unresolved by (simp add: gitDirName_def)
  from path_resolution_failure_aborts [OF p example_decode,
      where ps = quickProgram and opts = relativeOptions and w = bootWorld] a
  show ?thesis
    by (simp add: bootWorld_def relativeOptions_def exampleRequest_def example_id)
qed

lemma indexRepository_calls_grow:
  "\<exists>c cs. calls (fst (indexRepository ps opts req w rw)) = calls w @ c # cs \<and>
     Args c = [''zoekt-git-clone'', ''-dest'', repoDir opts,
         ''-name'', FormatUint (unat (RepoID req)),
         ''-repoid'', FormatUint (unat (RepoID req)), CloneURL req]"
  by (cases "Abs (cwd w) (Join (repoDir opts) (gitDirName req))")
     (simp_all add: indexRepository_def Let_def executeCmd_calls executeCmd_cwd CommandContext_def
       logPrintf_def)

text \<open>
  C3, as amended. An /index request whose body does not decode is answered 400 with
  \<open>JSON parser error\<close>, and no command is handed over or started. A body that is no
  JSON value, a value that is neither an object nor \<open>null\<close>, and an object with a member
  that selects no field do not decode; an object decodes exactly when each of its
  members selects a field and fits its type; \<open>null\<close> decodes, to the zero values. For a
  body that decodes, the handler is the pipeline driver on the decoded request: the
  clone command is handed over, and the response is 200 with an empty body when the
  repository path resolves, and the driver's 400 when it does not.
\<close>

theorem serveIndex_decoding:
  assumes "URLPath r = ''/index''"
  shows "(\<forall>err. Decode (Body r) = Inl err \<longrightarrow>
            status (snd (startIndexingApi ps opts r w)) = 400 \<and>
            replyBody (snd (startIndexingApi ps opts r w)) = ''JSON parser error'' \<and>
            calls (fst (startIndexingApi ps opts r w)) = calls w \<and>
            spawned (fst (startIndexingApi ps opts r w)) = spawned w) \<and>
         (Body r = Malformed \<longrightarrow> (\<exists>err. Decode (Body r) = Inl err)) \<and>
         (\<forall>v. Body r = Value v \<and> v \<noteq> JNull \<and> (\<forall>ms. v \<noteq> JObject ms) \<longrightarrow>
            (\<exists>err. Decode (Body r) = Inl err)) \<and>
         (\<forall>ms m. Body r = Value (JObject ms) \<and> m \<in> set ms \<and> findField (fst m) = None \<longrightarrow>
            (\<exists>err. Decode (Body r) = Inl err)) \<and>
         (\<forall>ms. Body r = Value (JObject ms) \<longrightarrow>
            ((\<exists>err. Decode (Body r) = Inl err) \<longleftrightarrow> \<not> list_all acceptedMember ms)) \<and>
         (Body r = Value JNull \<longrightarrow> Decode (Body r) = Inr \<lparr>CloneURL = [], RepoID = 0\<rparr>) \<and>
         (\<forall>req. Decode (Body r) = Inr req \<longrightarrow>
            startIndexingApi ps opts r w = indexRepository ps opts req w [] \<and>
            (\<exists>c cs. calls (fst (startIndexingApi ps opts r w)) = calls w @ c # cs \<and>
               hd (Args c) = ''zoekt-git-clone'') \<and>
            ((\<exists>p. Abs (cwd w) (Join (repoDir opts) (FormatUint (unat (RepoID req)) @ ''.git'')) = Inr p) \<longrightarrow>
               status (snd (startIndexingApi ps opts r w)) = 200 \<and>
               replyBody (snd (startIndexingApi ps opts r w)) = []) \<and>
            ((\<exists>err. Abs (cwd w) (Join (repoDir opts) (FormatUint (unat (RepoID req)) @ ''.git'')) = Inl err) \<longrightarrow>
               status (snd (startIndexingApi ps opts r w)) = 400 \<and>
               replyBody (snd (startIndexingApi ps opts r w)) = ''JSON parser error''))"
proof -
  let ?R = "startIndexingApi ps opts r w"
  have rejected: "\<forall>err. Decode (Body r) = Inl err \<longrightarrow>
      status (snd ?R) = 400 \<and> replyBody (snd ?R) = ''JSON parser error'' \<and>
      calls (fst ?R) = calls w \<and> spawned (fst ?R) = spawned w"
    using serveIndex_rejected [OF assms, of _ ps opts w]
    by (auto simp: status_def replyBody_def logPrintf_def)
  have malformed: "Body r = Malformed \<longrightarrow> (\<exists>err. Decode (Body r) = Inl err)"
    by (simp add: Decode_def)
  have other: "\<forall>v. Body r = Value v \<and> v \<noteq> JNull \<and> (\<forall>ms. v \<noteq> JObject ms) \<longrightarrow>
      (\<exists>err. Decode (Body r) = Inl err)"
    using Decode_not_object by auto
  have unknown: "\<forall>ms m. Body r = Value (JObject ms) \<and> m \<in> set ms \<and> findField (fst m) = None \<longrightarrow>
      (\<exists>err. Decode (Body r) = Inl err)"
    using Decode_unknown_field by metis
  have object: "\<forall>ms. Body r = Value (JObject ms) \<longrightarrow>
      ((\<exists>err. Decode (Body r) = Inl err) \<longleftrightarrow> \<not> list_all acceptedMember ms)"
    using Decode_object_iff by simp
  have null: "Body r = Value JNull \<longrightarrow> Decode (Body r) = Inr \<lparr>CloneURL = [], RepoID = 0\<rparr>"
    by (simp add: Decode_def)
  have decoded: "\<forall>req. Decode (Body r) = Inr req \<longrightarrow>
      ?R = indexRepository ps opts req w [] \<and>
      (\<exists>c cs. calls (fst ?R) = calls w @ c # cs \<and> hd (Args c) = ''zoekt-git-clone'') \<and>
      ((\<exists>p. Abs (cwd w) (Join (repoDir opts) (FormatUint (unat (RepoID req)) @ ''.git'')) = Inr p) \<longrightarrow>
         status (snd ?R) = 200 \<and> replyBody (snd ?R) = []) \<and>
      ((\<exists>err. Abs (cwd w) (Join (repoDir opts) (FormatUint (unat (RepoID req)) @ ''.git'')) = Inl err) \<longrightarrow>
         status (snd ?R) = 400 \<and> replyBody (snd ?R) = ''JSON parser error'')"
  proof (intro allI impI)
    fix req assume d: "Decode (Body r) = Inr req"
    have R: "?R = indexRepository ps opts req w []" using assms d by (rule serveIndex_decoded)
    from indexRepository_calls_grow [of ps opts req w "[]"]
    have g: "\<exists>c cs. calls (fst ?R) = calls w @ c # cs \<and> hd (Args c) = ''zoekt-git-clone''"
      unfolding R by fastforce
    have ok: "(\<exists>p. Abs (cwd w) (Join (repoDir opts) (FormatUint (unat (RepoID req)) @ ''.git'')) = Inr p) \<longrightarrow>
         status (snd ?R) = 200 \<and> replyBody (snd ?R) = []"
      using indexRepository_resolved(2) [of w opts req _ ps "[]"]
      by (auto simp: R gitDirName_def status_def replyBody_def)
    have bad: "(\<exists>err. Abs (cwd w) (Join (repoDir opts) (FormatUint (unat (RepoID req)) @ ''.git'')) = Inl err) \<longrightarrow>
         status (snd ?R) = 400 \<and> replyBody (snd ?R) = ''JSON parser error''"
      using indexRepository_unresolved(2) [of w opts req _ ps "[]"]
      by (auto simp: R gitDirName_def status_def replyBody_def httpError_def)
    from R g ok bad show "?R = indexRepository ps opts req w [] \<and>
      (\<exists>c cs. calls (fst ?R) = calls w @ c # cs \<and> hd (Args c) = ''zoekt-git-clone'') \<and>
      ((\<exists>p. Abs (cwd w) (Join (repoDir opts) (FormatUint (unat (RepoID req)) @ ''.git'')) = Inr p) \<longrightarrow>
         status (snd ?R) = 200 \<and> replyBody (snd ?R) = []) \<and>
      ((\<exists>err. Abs (cwd w) (Join (repoDir opts) (FormatUint (unat (RepoID req)) @ ''.git'')) = Inl err) \<longrightarrow>
         status (snd ?R) = 400 \<and> replyBody (snd ?R) = ''JSON parser error'')"
      by blast
  qed
  from rejected malformed other unknown object null decoded show ?thesis by blast
qed

lemma example_zero_id: "FormatUint 0 = ''0''"
  by code_simp

lemma example_zero_path: "Abs None (Join ''/repo_dir'' ''0.git'') = Inr ''/repo_dir/0.git''"
  by code_simp

lemma null_decodes: "Decode (Body nullPost) = Inr \<lparr>CloneURL = [], RepoID = 0\<rparr>"
  by (simp add: nullPost_def Decode_def)

lemma null_resolves:
  "Abs (cwd bootWorld) (Join (repoDir exampleOptions) (gitDirName \<lparr>CloneURL = [], RepoID = 0\<rparr>)) =
     Inr ''/repo_dir/0.git''"
  by (simp add: gitDirName_def example_zero_id exampleOptions_def bootWorld_def example_zero_path)

text \<open>
  C3 as stated fails, in both halves. The first body decodes, and the response is 400,
  because the repository directory is relative and the working directory is unknown.
  The second body is \<open>null\<close>, which is no object: it decodes all the same, the three
  commands are handed over for the repository 0, and the response is 200.
\<close>

theorem serveIndex_status_not_by_decoding_alone:
  "Decode (Body exampleIndexPost) = Inr exampleRequest \<and>
   status (snd (startIndexingApi quickProgram relativeOptions exampleIndexPost bootWorld)) = 400 \<and>
   replyBody (snd (startIndexingApi quickProgram relativeOptions exampleIndexPost bootWorld)) =
     ''JSON parser error'' \<and>
   Body nullPost = Value JNull \<and>
   status (snd (startIndexingApi quickProgram exampleOptions nullPost bootWorld)) = 200 \<and>
   map Args (calls (fst (startIndexingApi quickProgram exampleOptions nullPost bootWorld))) =
     [[''zoekt-git-clone'', ''-dest'', ''/repo_dir'', ''-name'', ''0'', ''-repoid'', ''0'', []],
      [''git'', ''-C'', ''/repo_dir/0.git'', ''fetch''],
      [''zoekt-git-index'', ''-index'', ''/index_dir'', ''/repo_dir/0.git'']]"
proof -
  have p: "URLPath exampleIndexPost = ''/index''" by (simp add: exampleIndexPost_def)
  have "snd (startIndexingApi quickProgram relativeOptions exampleIndexPost bootWorld) =
      [(''JSON parser error'', 400)]"
    using indexRepository_unresolved(2) [OF relative_unresolved, of quickProgram "[]"]
    by (simp add: serveIndex_decoded [OF p example_decode] httpError_def)
  then have a: "status (snd (startIndexingApi quickProgram relativeOptions exampleIndexPost bootWorld)) = 400 \<and>
      replyBody (snd (startIndexingApi quickProgram relativeOptions exampleIndexPost bootWorld)) =
        ''JSON parser error''"
    by (simp add: status_def replyBody_def)
  have q: "URLPath nullPost = ''/index''" and b: "Body nullPost = Value JNull"
    by (simp_all add: nullPost_def)
  note R = serveIndex_decoded [OF q null_decodes, of quickProgram exampleOptions bootWorld]
  from indexRepository_resolved [OF null_resolves, of quickProgram "[]"]
  have c: "status (snd (startIndexingApi quickProgram exampleOptions nullPost bootWorld)) = 200 \<and>
      map Args (calls (fst (startIndexingApi quickProgram exampleOptions nullPost bootWorld))) =
        [[''zoekt-git-clone'', ''-dest'', ''/repo_dir'', ''-name'', ''0'', ''-repoid'', ''0'', []],
         [''git'', ''-C'', ''/repo_dir/0.git'', ''fetch''],
         [''zoekt-git-index'', ''-index'', ''/index_dir'', ''/repo_dir/0.git'']]"
    unfolding R by (simp add: status_def exampleOptions_def bootWorld_def example_zero_id)
  from a b c example_decode show ?thesis by blast
qed

lemma extraField_member:
  "Body extraFieldPost = Value (JObject [(''CloneURL'', JString ''https://example.com/repository.git''),
      (''RepoID'', JNumber ''100''), (''Branch'', JString ''main'')]) \<and>
   (''Branch'', JString ''main'') \<in> set [(''CloneURL'', JString ''https://example.com/repository.git''),
      (''RepoID'', JNumber ''100''), (''Branch'', JString ''main'')] \<and>
   findField (fst (''Branch'', JString ''main'')) = None"
  by (simp add: extraFieldPost_def findField_def toLower_def)

theorem serveIndex_decoding_witness:
  "status (snd (startIndexingApi quickProgram exampleOptions extraFieldPost bootWorld)) = 400 \<and>
   replyBody (snd (startIndexingApi quickProgram exampleOptions extraFieldPost bootWorld)) = ''JSON parser error'' \<and>
   calls (fst (startIndexingApi quickProgram exampleOptions extraFieldPost bootWorld)) = [] \<and>
   spawned (fst (startIndexingApi quickProgram exampleOptions extraFieldPost bootWorld)) = [] \<and>
   status (snd (startIndexingApi quickProgram exampleOptions exampleIndexPost bootWorld)) = 200 \<and>
   replyBody (snd (startIndexingApi quickProgram exampleOptions exampleIndexPost bootWorld)) = []"
proof -
  have p: "URLPath extraFieldPost = ''/index''" by (simp add: extraFieldPost_def)
  note t = serveIndex_decoding [OF p, where ps = quickProgram and opts = exampleOptions and w = bootWorld]
  from t extraField_member obtain err where "Decode (Body extraFieldPost) = Inl err" by blast
  with t have a: "status (snd (startIndexingApi quickProgram exampleOptions extraFieldPost bootWorld)) = 400 \<and>
      replyBody (snd (startIndexingApi quickProgram exampleOptions extraFieldPost bootWorld)) = ''JSON parser error'' \<and>
      calls (fst (startIndexingApi quickProgram exampleOptions extraFieldPost bootWorld)) = calls bootWorld \<and>
      spawned (fst (startIndexingApi quickProgram exampleOptions extraFieldPost bootWorld)) = spawned bootWorld"
    by blast
  have q: "URLPath exampleIndexPost = ''/index''" by (simp add: exampleIndexPost_def)
  note u = serveIndex_decoding [OF q, where ps = quickProgram and opts = exampleOptions and w = bootWorld]
  have "\<exists>p. Abs (cwd bootWorld) (Join (repoDir exampleOptions)
      (FormatUint (unat (RepoID exampleRequest)) @ ''.git'')) = Inr p"
    using example_resolves by (simp add: gitDirName_def)
  with u example_decode
  have b: "status (snd (startIndexingApi quickProgram exampleOptions exampleIndexPost bootWorld)) = 200 \<and>
      replyBody (snd (startIndexingApi quickProgram exampleOptions exampleIndexPost bootWorld)) = []"
    by blast
  from a b show ?thesis by (simp add: bootWorld_def)
qed

text \<open>
  C9. A missing field is not an error: the object \<open>{}\<close> decodes to the zero values, an
  object with only one of the two fields leaves the other at its zero value, and every
  object whose members each select a field and fit its type decodes, with the zero value
  in each field that no member selects. For the body \<open>{}\<close>, with \<open>p\<close> the absolute path
  that \<open>{repoDir}/0.git\<close> resolves to, the three commands are handed over for that path,
  with the empty clone URL, and the response is 200.
\<close>

theorem missing_fields_decode_to_zero:
  "Decode (Value (JObject [])) = Inr \<lparr>CloneURL = [], RepoID = 0\<rparr> \<and>
   (\<forall>u. Decode (Value (JObject [(''CloneURL'', JString u)])) = Inr \<lparr>CloneURL = u, RepoID = 0\<rparr>) \<and>
   (\<forall>lit n. ParseUint32 lit = Some n \<longrightarrow>
      Decode (Value (JObject [(''RepoID'', JNumber lit)])) = Inr \<lparr>CloneURL = [], RepoID = n\<rparr>) \<and>
   (\<forall>ms. list_all acceptedMember ms \<longrightarrow>
      (\<exists>req. Decode (Value (JObject ms)) = Inr req \<and>
         (\<not> list_ex (selects FieldCloneURL) ms \<longrightarrow> CloneURL req = []) \<and>
         (\<not> list_ex (selects FieldRepoID) ms \<longrightarrow> RepoID req = 0))) \<and>
   (\<forall>p. URLPath r = ''/index'' \<and> Body r = Value (JObject []) \<and>
        Abs (cwd w) (Join (repoDir opts) ''0.git'') = Inr p \<longrightarrow>
      map Args (calls (fst (startIndexingApi ps opts r w))) =
        map Args (calls w) @
          [[''zoekt-git-clone'', ''-dest'', repoDir opts, ''-name'', ''0'', ''-repoid'', ''0'', []],
           [''git'', ''-C'', p, ''fetch''],
           [''zoekt-git-index'', ''-index'', indexDir opts, p]] \<and>
      status (snd (startIndexingApi ps opts r w)) = 200 \<and>
      replyBody (snd (startIndexingApi ps opts r w)) = [])"
proof -
  have d0: "Decode (Value (JObject [])) = Inr \<lparr>CloneURL = [], RepoID = 0\<rparr>"
    by (simp add: Decode_def)
  have d1: "\<forall>u. Decode (Value (JObject [(''CloneURL'', JString u)])) = Inr \<lparr>CloneURL = u, RepoID = 0\<rparr>"
    by (simp add: Decode_def decodeMember_def findField_def toLower_def)
  have d2: "\<forall>lit n. ParseUint32 lit = Some n \<longrightarrow>
      Decode (Value (JObject [(''RepoID'', JNumber lit)])) = Inr \<lparr>CloneURL = [], RepoID = n\<rparr>"
    by (simp add: Decode_def decodeMember_def findField_def toLower_def)
  have d3: "\<forall>ms. list_all acceptedMember ms \<longrightarrow>
      (\<exists>req. Decode (Value (JObject ms)) = Inr req \<and>
         (\<not> list_ex (selects FieldCloneURL) ms \<longrightarrow> CloneURL req = []) \<and>
         (\<not> list_ex (selects FieldRepoID) ms \<longrightarrow> RepoID req = 0))"
    using Decode_accepted by blast
  have run: "\<forall>p. URLPath r = ''/index'' \<and> Body r = Value (JObject []) \<and>
        Abs (cwd w) (Join (repoDir opts) ''0.git'') = Inr p \<longrightarrow>
      map Args (calls (fst (startIndexingApi ps opts r w))) =
        map Args (calls w) @
          [[''zoekt-git-clone'', ''-dest'', repoDir opts, ''-name'', ''0'', ''-repoid'', ''0'', []],
           [''git'', ''-C'', p, ''fetch''],
           [''zoekt-git-index'', ''-index'', indexDir opts, p]] \<and>
      status (snd (startIndexingApi ps opts r w)) = 200 \<and>
      replyBody (snd (startIndexingApi ps opts r w)) = []"
  proof (intro allI impI)
    let ?req = "\<lparr>CloneURL = [], RepoID = 0\<rparr>"
    fix p
    assume a: "URLPath r = ''/index'' \<and> Body r = Value (JObject []) \<and>
        Abs (cwd w) (Join (repoDir opts) ''0.git'') = Inr p"
    then have dec: "Decode (Body r) = Inr ?req" using d0 by simp
    have R: "startIndexingApi ps opts r w = indexRepository ps opts ?req w []"
      using a dec by (intro serveIndex_decoded) simp_all
    have g: "gitDirName ?req = ''0.git''" by (simp add: gitDirName_def example_zero_id)
    from a have p': "Abs (cwd w) (Join (repoDir opts) (gitDirName ?req)) = Inr p" by (simp only: g)
    from indexRepository_resolved [OF p', of ps "[]"]
    show "map Args (calls (fst (startIndexingApi ps opts r w))) =
        map Args (calls w) @
          [[''zoekt-git-clone'', ''-dest'', repoDir opts, ''-name'', ''0'', ''-repoid'', ''0'', []],
           [''git'', ''-C'', p, ''fetch''],
           [''zoekt-git-index'', ''-index'', indexDir opts, p]] \<and>
      status (snd (startIndexingApi ps opts r w)) = 200 \<and>
      replyBody (snd (startIndexingApi ps opts r w)) = []"
      by (simp add: R example_zero_id status_def replyBody_def)
  qed
  from d0 d1 d2 d3 run show ?thesis by blast
qed

theorem missing_fields_decode_to_zero_witness:
  "map Args (calls (fst (startIndexingApi quickProgram exampleOptions emptyObjectPost bootWorld))) =
     [[''zoekt-git-clone'', ''-dest'', ''/repo_dir'', ''-name'', ''0'', ''-repoid'', ''0'', []],
      [''git'', ''-C'', ''/repo_dir/0.git'', ''fetch''],
      [''zoekt-git-index'', ''-index'', ''/index_dir'', ''/repo_dir/0.git'']] \<and>
   status (snd (startIndexingApi quickProgram exampleOptions emptyObjectPost bootWorld)) = 200"
proof -
  have a: "URLPath emptyObjectPost = ''/index'' \<and> Body emptyObjectPost = Value (JObject []) \<and>
      Abs (cwd bootWorld) (Join (repoDir exampleOptions) ''0.git'') = Inr ''/repo_dir/0.git''"
    by (simp add: emptyObjectPost_def exampleOptions_def bootWorld_def example_zero_path)
  from missing_fields_decode_to_zero [where r = emptyObjectPost and opts = exampleOptions
      and w = bootWorld and ps = quickProgram] a
  have "map Args (calls (fst (startIndexingApi quickProgram exampleOptions emptyObjectPost bootWorld))) =
        map Args (calls bootWorld) @
          [[''zoekt-git-clone'', ''-dest'', repoDir exampleOptions, ''-name'', ''0'', ''-repoid'', ''0'', []],
           [''git'', ''-C'', ''/repo_dir/0.git'', ''fetch''],
           [''zoekt-git-index'', ''-index'', indexDir exampleOptions, ''/repo_dir/0.git'']] \<and>
      status (snd (startIndexingApi quickProgram exampleOptions emptyObjectPost bootWorld)) = 200"
    by blast
  then show ?thesis by (simp add: bootWorld_def exampleOptions_def)
qed

text \<open>
  C10. The method of a request is never inspected: a request to /index, to /truncate or
  to any other path is handled in the same way under every method \<open>m\<close> as under the
  method it came with, a POST for one. So a GET to /truncate empties both directories.
\<close>

theorem method_not_inspected:
  "startIndexingApi ps opts (r\<lparr>Method := m\<rparr>) w = startIndexingApi ps opts r w"
  by (simp add: startIndexingApi_def serveIndex_def serveTruncate_def)

section \<open>Truncation\<close>

lemma ReadDir_world: "snd (ReadDir dir w) = w\<lparr>fsCalls := fsCalls w @ [CallReadDir dir]\<rparr>"
  by (simp add: ReadDir_def Let_def split: sum.splits)

lemma ReadDir_ok:
  "resolve (files w) (cwd w) dir = Inr d \<Longrightarrow> isDirAt (files w) d \<Longrightarrow>
   fst (ReadDir dir w) = Inr (sort (childNames (files w) d))"
  by (simp add: ReadDir_def Let_def)

lemma ReadDir_Inr:
  "fst (ReadDir dir w) = Inr names \<Longrightarrow>
   \<exists>d. resolve (files w) (cwd w) dir = Inr d \<and> isDirAt (files w) d \<and>
       names = sort (childNames (files w) d)"
  by (auto simp: ReadDir_def Let_def split: sum.splits if_splits)



lemma emptyDirectory_unfold:
  "emptyDirectory dir w =
     (case fst (ReadDir dir w) of
        Inl err \<Rightarrow> (Some err, w\<lparr>fsCalls := fsCalls w @ [CallReadDir dir]\<rparr>)
      | Inr names \<Rightarrow> removeEach dir names (w\<lparr>fsCalls := fsCalls w @ [CallReadDir dir]\<rparr>))"
  using ReadDir_world [of dir w]
  by (cases "ReadDir dir w") (auto simp: emptyDirectory_def split: sum.splits)

lemma sorted_names_plain:
  "wellFormed fs \<Longrightarrow> \<forall>n \<in> set (sort (childNames fs d)). plainName n"
  using childNames_plain by auto

lemma resolve_reaches:
  assumes wf: "wellFormed (files w)" and res: "resolve (files w) (cwd w) dir = Inr d"
    and dd: "isDirAt (files w) d" and safe: "\<forall>c. cwd w = Some c \<longrightarrow> \<not> strict_prefix d c"
  shows "reaches (files w) (cwd w) dir d"
  using resolve_lexical [OF wf res] resolve_start [OF res] wf dd safe
  unfolding reaches_def by blast

lemma emptyDirectory_ok:
  assumes wf: "wellFormed (files w)" and res: "resolve (files w) (cwd w) dir = Inr d"
    and dir: "isDirAt (files w) d" and nb: "\<not> busyBelow (files w) d"
    and safe: "\<forall>c. cwd w = Some c \<longrightarrow> \<not> strict_prefix d c"
  shows "emptyDirectory dir w =
     (None, w\<lparr>fsCalls := fsCalls w @ CallReadDir dir #
                  map (\<lambda>n. CallRemoveAll (Join dir n)) (sort (childNames (files w) d)),
              files := filter (\<lambda>e. \<not> strict_prefix d (loc e)) (files w)\<rparr>)"
proof -
  define w0 where "w0 = w\<lparr>fsCalls := fsCalls w @ [CallReadDir dir]\<rparr>"
  let ?names = "sort (childNames (files w) d)"
  have f0: "files w0 = files w" and c0: "cwd w0 = cwd w" by (simp_all add: w0_def)
  have E: "emptyDirectory dir w = removeEach dir ?names w0"
    by (simp add: emptyDirectory_unfold ReadDir_ok [OF res dir] w0_def)
  have l0: "reaches (files w0) (cwd w0) dir d"
    unfolding f0 c0 by (rule resolve_reaches [OF wf res dir safe])
  have ok: "\<forall>n \<in> set ?names. plainName n \<and> \<not> blocked (files w0) (d @ [n])"
    using sorted_names_plain [OF wf, of d] nb busyBelow_child [OF wf, of d] by (auto simp: f0)
  have "removeEach dir ?names w0 =
      (None, w0\<lparr>fsCalls := fsCalls w0 @ map (\<lambda>n. CallRemoveAll (Join dir n)) ?names,
        files := filter (\<lambda>e. \<not> (\<exists>n \<in> set ?names. prefix (d @ [n]) (loc e))) (files w0)\<rparr>)"
    by (rule removeEach_ok [OF l0 ok])
  also have "filter (\<lambda>e. \<not> (\<exists>n \<in> set ?names. prefix (d @ [n]) (loc e))) (files w0) =
      filter (\<lambda>e. \<not> strict_prefix d (loc e)) (files w)"
    unfolding f0 by (rule filter_below [OF wf])
  finally show ?thesis by (simp add: E w0_def)
qed

lemma emptyDirectory_busy:
  assumes wf: "wellFormed (files w)" and res: "resolve (files w) (cwd w) dir = Inr d"
    and dir: "isDirAt (files w) d" and bb: "busyBelow (files w) d"
    and safe: "\<forall>c. cwd w = Some c \<longrightarrow> \<not> strict_prefix d c"
  shows "\<exists>pre n post. sort (childNames (files w) d) = pre @ n # post \<and>
      (\<forall>m \<in> set pre. \<not> blocked (files w) (d @ [m])) \<and> blocked (files w) (d @ [n]) \<and>
      emptyDirectory dir w =
        (Some EBUSY,
         w\<lparr>fsCalls := fsCalls w @ CallReadDir dir # map (\<lambda>n. CallRemoveAll (Join dir n)) (pre @ [n]),
           files := filter (\<lambda>e. \<not> (\<exists>m \<in> set pre. prefix (d @ [m]) (loc e)) \<and>
                      (\<not> prefix (d @ [n]) (loc e) \<or> blocked (files w) (loc e))) (files w)\<rparr>)"
proof -
  define w0 where "w0 = w\<lparr>fsCalls := fsCalls w @ [CallReadDir dir]\<rparr>"
  let ?names = "sort (childNames (files w) d)"
  have f0: "files w0 = files w" and c0: "cwd w0 = cwd w" by (simp_all add: w0_def)
  have E: "emptyDirectory dir w = removeEach dir ?names w0"
    by (simp add: emptyDirectory_unfold ReadDir_ok [OF res dir] w0_def)
  have l0: "reaches (files w0) (cwd w0) dir d"
    unfolding f0 c0 by (rule resolve_reaches [OF wf res dir safe])
  have pn: "\<forall>n \<in> set ?names. plainName n" by (rule sorted_names_plain [OF wf])
  have some: "\<exists>n \<in> set ?names. blocked (files w0) (d @ [n])"
    using bb busyBelow_child [OF wf, of d] by (simp add: f0)
  from removeEach_cases [OF l0 pn] some
  obtain pre n post where sp: "?names = pre @ n # post"
    and pre: "\<forall>m \<in> set pre. \<not> blocked (files w0) (d @ [m])" and bn: "blocked (files w0) (d @ [n])"
    and r: "removeEach dir ?names w0 =
              (Some EBUSY,
               w0\<lparr>fsCalls := fsCalls w0 @ map (\<lambda>n. CallRemoveAll (Join dir n)) (pre @ [n]),
                 files := filter (\<lambda>e. \<not> (\<exists>m \<in> set pre. prefix (d @ [m]) (loc e)) \<and>
                          (\<not> prefix (d @ [n]) (loc e) \<or> blocked (files w0) (loc e))) (files w0)\<rparr>)"
    by blast
  have "emptyDirectory dir w =
        (Some EBUSY,
         w\<lparr>fsCalls := fsCalls w @ CallReadDir dir # map (\<lambda>n. CallRemoveAll (Join dir n)) (pre @ [n]),
           files := filter (\<lambda>e. \<not> (\<exists>m \<in> set pre. prefix (d @ [m]) (loc e)) \<and>
                      (\<not> prefix (d @ [n]) (loc e) \<or> blocked (files w) (loc e))) (files w)\<rparr>)"
    unfolding E r by (simp add: w0_def)
  with sp pre bn show ?thesis unfolding f0 by blast
qed

lemma emptyDirectory_listing_fails:
  "fst (ReadDir dir w) = Inl err \<Longrightarrow>
   emptyDirectory dir w = (Some err, w\<lparr>fsCalls := fsCalls w @ [CallReadDir dir]\<rparr>)"
  by (simp add: emptyDirectory_unfold)

lemma isDirAt_filter_below:
  "isDirAt fs d \<Longrightarrow> \<not> strict_prefix q d \<Longrightarrow> isDirAt (filter (\<lambda>e. \<not> strict_prefix q (loc e)) fs) d"
  by (auto simp: isDirAt_def)


text \<open>
  A call on an absolute path does not depend on the working directory, in what it
  returns and in what it leaves of the file system.
\<close>

lemma RemoveAll_abs:
  assumes "IsAbs p" and "files v = files w"
  shows "fst (RemoveAll p v) = fst (RemoveAll p w) \<and>
         files (snd (RemoveAll p v)) = files (snd (RemoveAll p w))"
  using resolve_abs [OF assms(1), of "files w" "cwd v" "cwd w"]
  by (auto simp: RemoveAll_def Let_def assms(2) split: sum.splits)

lemma removeEach_abs:
  "IsAbs dir \<Longrightarrow> files v = files w \<Longrightarrow>
   fst (removeEach dir names v) = fst (removeEach dir names w) \<and>
   files (snd (removeEach dir names v)) = files (snd (removeEach dir names w))"
proof (induction names arbitrary: v w)
  case Nil
  then show ?case by simp
next
  case (Cons n names)
  obtain rv v' where rv: "RemoveAll (Join dir n) v = (rv, v')" by (cases "RemoveAll (Join dir n) v")
  obtain rw w' where rw: "RemoveAll (Join dir n) w = (rw, w')" by (cases "RemoveAll (Join dir n) w")
  from RemoveAll_abs [OF IsAbs_Join [OF Cons.prems(1)] Cons.prems(2), of n] rv rw
  have same: "rv = rw" "files v' = files w'" by simp_all
  show ?case
  proof (cases rw)
    case None
    from Cons.IH [OF Cons.prems(1) same(2)] show ?thesis by (simp add: rv rw same(1) None)
  next
    case (Some err)
    then show ?thesis by (simp add: rv rw same)
  qed
qed

lemma emptyDirectory_abs:
  assumes "IsAbs dir" and "files v = files w"
  shows "fst (emptyDirectory dir v) = fst (emptyDirectory dir w) \<and>
         files (snd (emptyDirectory dir v)) = files (snd (emptyDirectory dir w))"
proof -
  have r: "fst (ReadDir dir v) = fst (ReadDir dir w)"
    using resolve_abs [OF assms(1), of "files w" "cwd v" "cwd w"]
    by (simp add: ReadDir_def Let_def assms(2) split: sum.splits)
  show ?thesis
  proof (cases "fst (ReadDir dir w)")
    case (Inl err)
    with r assms(2) show ?thesis by (simp add: emptyDirectory_unfold)
  next
    case (Inr names)
    from removeEach_abs [OF assms(1), of "v\<lparr>fsCalls := fsCalls v @ [CallReadDir dir]\<rparr>"
        "w\<lparr>fsCalls := fsCalls w @ [CallReadDir dir]\<rparr>" names] assms(2) r Inr
    show ?thesis by (simp add: emptyDirectory_unfold)
  qed
qed

lemma emptyDirectory_files_ok:
  assumes wf: "wellFormed (files w)" and res: "resolve (files w) (cwd w) dir = Inr d"
    and dir: "isDirAt (files w) d" and nb: "\<not> busyBelow (files w) d"
    and safe: "IsAbs dir \<or> (\<forall>c. cwd w = Some c \<longrightarrow> \<not> strict_prefix d c)"
  shows "fst (emptyDirectory dir w) = None \<and>
         files (snd (emptyDirectory dir w)) = filter (\<lambda>e. \<not> strict_prefix d (loc e)) (files w)"
proof (cases "\<forall>c. cwd w = Some c \<longrightarrow> \<not> strict_prefix d c")
  case True
  from emptyDirectory_ok [OF wf res dir nb True] show ?thesis by simp
next
  case False
  with safe have a: "IsAbs dir" by blast
  let ?v = "w\<lparr>cwd := None\<rparr>"
  have "resolve (files ?v) (cwd ?v) dir = Inr d"
    using res resolve_abs [OF a, of "files w" None "cwd w"] by simp
  from emptyDirectory_ok [of ?v, OF _ this] wf dir nb
  have "fst (emptyDirectory dir ?v) = None \<and>
      files (snd (emptyDirectory dir ?v)) = filter (\<lambda>e. \<not> strict_prefix d (loc e)) (files w)"
    by simp
  with emptyDirectory_abs [OF a, of ?v w] show ?thesis by simp
qed

lemma emptyDirectory_files_busy:
  assumes wf: "wellFormed (files w)" and res: "resolve (files w) (cwd w) dir = Inr d"
    and dir: "isDirAt (files w) d" and bb: "busyBelow (files w) d"
    and safe: "IsAbs dir \<or> (\<forall>c. cwd w = Some c \<longrightarrow> \<not> strict_prefix d c)"
  shows "fst (emptyDirectory dir w) = Some EBUSY \<and>
     (\<exists>pre n post. sort (childNames (files w) d) = pre @ n # post \<and>
        (\<forall>m \<in> set pre. \<not> blocked (files w) (d @ [m])) \<and> blocked (files w) (d @ [n]) \<and>
        files (snd (emptyDirectory dir w)) =
          filter (\<lambda>e. \<not> (\<exists>m \<in> set pre. prefix (d @ [m]) (loc e)) \<and>
                     (\<not> prefix (d @ [n]) (loc e) \<or> blocked (files w) (loc e))) (files w))"
proof -
  have core: "\<And>v :: world. files v = files w \<Longrightarrow> resolve (files v) (cwd v) dir = Inr d \<Longrightarrow>
      \<forall>c. cwd v = Some c \<longrightarrow> \<not> strict_prefix d c \<Longrightarrow>
      fst (emptyDirectory dir v) = Some EBUSY \<and>
      (\<exists>pre n post. sort (childNames (files w) d) = pre @ n # post \<and>
        (\<forall>m \<in> set pre. \<not> blocked (files w) (d @ [m])) \<and> blocked (files w) (d @ [n]) \<and>
        files (snd (emptyDirectory dir v)) =
          filter (\<lambda>e. \<not> (\<exists>m \<in> set pre. prefix (d @ [m]) (loc e)) \<and>
                     (\<not> prefix (d @ [n]) (loc e) \<or> blocked (files w) (loc e))) (files w))"
  proof -
    fix v :: world assume fv: "files v = files w" and rv: "resolve (files v) (cwd v) dir = Inr d"
      and sv: "\<forall>c. cwd v = Some c \<longrightarrow> \<not> strict_prefix d c"
    from emptyDirectory_busy [of v dir d, OF _ rv _ _ sv] wf dir bb obtain pre n post
      where sp: "sort (childNames (files w) d) = pre @ n # post"
        and pre: "\<forall>m \<in> set pre. \<not> blocked (files w) (d @ [m])" and bn: "blocked (files w) (d @ [n])"
        and E: "emptyDirectory dir v =
        (Some EBUSY,
         v\<lparr>fsCalls := fsCalls v @ CallReadDir dir # map (\<lambda>n. CallRemoveAll (Join dir n)) (pre @ [n]),
           files := filter (\<lambda>e. \<not> (\<exists>m \<in> set pre. prefix (d @ [m]) (loc e)) \<and>
                      (\<not> prefix (d @ [n]) (loc e) \<or> blocked (files w) (loc e))) (files w)\<rparr>)"
      unfolding fv by blast
    have "files (snd (emptyDirectory dir v)) =
        filter (\<lambda>e. \<not> (\<exists>m \<in> set pre. prefix (d @ [m]) (loc e)) \<and>
                   (\<not> prefix (d @ [n]) (loc e) \<or> blocked (files w) (loc e))) (files w)"
      unfolding E by simp
    moreover have "fst (emptyDirectory dir v) = Some EBUSY" unfolding E by simp
    ultimately show "fst (emptyDirectory dir v) = Some EBUSY \<and>
      (\<exists>pre n post. sort (childNames (files w) d) = pre @ n # post \<and>
        (\<forall>m \<in> set pre. \<not> blocked (files w) (d @ [m])) \<and> blocked (files w) (d @ [n]) \<and>
        files (snd (emptyDirectory dir v)) =
          filter (\<lambda>e. \<not> (\<exists>m \<in> set pre. prefix (d @ [m]) (loc e)) \<and>
                     (\<not> prefix (d @ [n]) (loc e) \<or> blocked (files w) (loc e))) (files w))"
      using sp pre bn by blast
  qed
  show ?thesis
  proof (cases "\<forall>c. cwd w = Some c \<longrightarrow> \<not> strict_prefix d c")
    case True
    from core [of w, OF refl res True] show ?thesis .
  next
    case False
    with safe have a: "IsAbs dir" by blast
    let ?v = "w\<lparr>cwd := None\<rparr>"
    have rv: "resolve (files ?v) (cwd ?v) dir = Inr d"
      using res resolve_abs [OF a, of "files w" None "cwd w"] by simp
    from core [of ?v, OF _ rv] emptyDirectory_abs [OF a, of ?v w] show ?thesis by simp
  qed
qed

lemma RemoveAll_cwd: "cwd (snd (RemoveAll p w)) = Some c \<Longrightarrow> cwd w = Some c"
  by (auto simp: RemoveAll_def Let_def split: sum.splits option.splits if_splits)

lemma removeEach_cwd: "cwd (snd (removeEach dir names w)) = Some c \<Longrightarrow> cwd w = Some c"
proof (induction names arbitrary: w)
  case Nil
  then show ?case by simp
next
  case (Cons n names)
  obtain r w' where r: "RemoveAll (Join dir n) w = (r, w')" by (cases "RemoveAll (Join dir n) w")
  have "cwd w' = Some c"
  proof (cases r)
    case None
    with Cons.prems r have "cwd (snd (removeEach dir names w')) = Some c" by simp
    then show ?thesis by (rule Cons.IH)
  next
    case (Some err)
    with Cons.prems r show ?thesis by simp
  qed
  with RemoveAll_cwd [of "Join dir n" w c] r show ?case by simp
qed

lemma emptyDirectory_cwd: "cwd (snd (emptyDirectory dir w)) = Some c \<Longrightarrow> cwd w = Some c"
proof (cases "fst (ReadDir dir w)")
  case (Inl err)
  assume "cwd (snd (emptyDirectory dir w)) = Some c"
  with Inl show ?thesis by (simp add: emptyDirectory_unfold)
next
  case (Inr names)
  assume "cwd (snd (emptyDirectory dir w)) = Some c"
  with Inr removeEach_cwd [of dir names "w\<lparr>fsCalls := fsCalls w @ [CallReadDir dir]\<rparr>" c]
  show ?thesis by (simp add: emptyDirectory_unfold)
qed

lemma relative_safe:
  assumes res: "resolve (files w) (cwd w) dir = Inr d" and nd: "''..'' \<notin> set (pathFields dir)"
  shows "IsAbs dir \<or> (\<forall>c. cwd w = Some c \<longrightarrow> \<not> strict_prefix d c)"
proof (cases "IsAbs dir")
  case True
  then show ?thesis by simp
next
  case False
  have "\<forall>c. cwd w = Some c \<longrightarrow> \<not> strict_prefix d c"
  proof (intro allI impI)
    fix c assume c: "cwd w = Some c"
    from resolve_below_cwd [OF res [unfolded c] False nd] show "\<not> strict_prefix d c"
      by (auto simp: strict_prefix_def)
  qed
  then show ?thesis by simp
qed

lemma existsAt_filter: "existsAt fs d \<Longrightarrow> K d \<Longrightarrow> existsAt (filter (\<lambda>e. K (loc e)) fs) d"
  by (auto simp: existsAt_def)

lemma resolve_after:
  assumes res: "resolve fs wd dir = Inr q" and keep: "\<And>x. x \<in> set (passes wd dir) \<Longrightarrow> K x"
  shows "resolve (filter (\<lambda>e. K (loc e)) fs) wd dir = Inr q"
  using res
proof (rule resolve_same_places)
  show "\<forall>x \<in> set (passes wd dir).
      (existsAt fs x \<longrightarrow> existsAt (filter (\<lambda>e. K (loc e)) fs) x) \<and>
      (isDirAt fs x \<longrightarrow> isDirAt (filter (\<lambda>e. K (loc e)) fs) x)"
    using keep by (simp add: existsAt_filter isDirAt_filter)
qed

lemma resolve_before:
  assumes res: "resolve fs' wd dir = Inr q" and sub: "set fs' \<subseteq> set fs"
  shows "resolve fs wd dir = Inr q"
  using res
proof (rule resolve_same_places)
  show "\<forall>x \<in> set (passes wd dir).
      (existsAt fs' x \<longrightarrow> existsAt fs x) \<and> (isDirAt fs' x \<longrightarrow> isDirAt fs x)"
    using sub by (auto simp: existsAt_def isDirAt_def)
qed

lemma childNames_none_below:
  "\<forall>e \<in> set fs. \<not> strict_prefix d (loc e) \<Longrightarrow> childNames fs d = []"
proof -
  assume a: "\<forall>e \<in> set fs. \<not> strict_prefix d (loc e)"
  have "\<And>n. n \<notin> set (childNames fs d)"
    unfolding childNames_iff using a by (auto simp: strict_prefix_def)
  then show ?thesis by (meson all_not_in_conv set_empty)
qed

lemma emptyDirectory_empty:
  "resolve (files w) (cwd w) dir = Inr d \<Longrightarrow> isDirAt (files w) d \<Longrightarrow> childNames (files w) d = [] \<Longrightarrow>
   emptyDirectory dir w = (None, w\<lparr>fsCalls := fsCalls w @ [CallReadDir dir]\<rparr>)"
  by (simp add: emptyDirectory_unfold ReadDir_ok)







lemma sample_mnt_after:
  "emptyDirectory ''/mnt'' sampleWorld =
     (Some EBUSY,
      sampleWorld\<lparr>fsCalls := [CallReadDir ''/mnt'', CallRemoveAll ''/mnt/a'', CallRemoveAll ''/mnt/b''],
        files := [\<lparr>loc = [''data''], isDir = True, busy = False\<rparr>,
              \<lparr>loc = [''data'', ''b''], isDir = False, busy = False\<rparr>,
              \<lparr>loc = [''data'', ''c''], isDir = True, busy = False\<rparr>,
              \<lparr>loc = [''data'', ''c'', ''d''], isDir = False, busy = False\<rparr>,
              \<lparr>loc = [''data'', ''a''], isDir = False, busy = False\<rparr>,
              \<lparr>loc = [''mnt''], isDir = True, busy = False\<rparr>,
              \<lparr>loc = [''mnt'', ''b''], isDir = True, busy = False\<rparr>,
              \<lparr>loc = [''mnt'', ''b'', ''y''], isDir = True, busy = True\<rparr>,
              \<lparr>loc = [''mnt'', ''c''], isDir = False, busy = False\<rparr>]\<rparr>)"
  unfolding sampleWorld_def by code_simp


lemma RemoveAll_fsCalls: "fsCalls (snd (RemoveAll p w)) = fsCalls w @ [CallRemoveAll p]"
  by (simp add: RemoveAll_def Let_def split: sum.splits)

lemma RemoveAll_files: "set (files (snd (RemoveAll p w))) \<subseteq> set (files w)"
  by (auto simp: RemoveAll_def Let_def split: sum.splits)

lemma removeEach_fsCalls: "\<exists>l. fsCalls (snd (removeEach dir names w)) = fsCalls w @ l"
proof (induction names arbitrary: w)
  case Nil
  show ?case by simp
next
  case (Cons n names)
  obtain r w' where r: "RemoveAll (Join dir n) w = (r, w')" by (cases "RemoveAll (Join dir n) w")
  then have c: "fsCalls w' = fsCalls w @ [CallRemoveAll (Join dir n)]"
    using RemoveAll_fsCalls [of "Join dir n" w] by simp
  show ?case
  proof (cases r)
    case None
    from Cons.IH [of w'] obtain l where "fsCalls (snd (removeEach dir names w')) = fsCalls w' @ l" ..
    then show ?thesis by (simp add: r None c)
  next
    case (Some err)
    then show ?thesis by (simp add: r c)
  qed
qed

lemma removeEach_files: "set (files (snd (removeEach dir names w))) \<subseteq> set (files w)"
proof (induction names arbitrary: w)
  case Nil
  show ?case by simp
next
  case (Cons n names)
  obtain r w' where r: "RemoveAll (Join dir n) w = (r, w')" by (cases "RemoveAll (Join dir n) w")
  then have c: "set (files w') \<subseteq> set (files w)"
    using RemoveAll_files [of "Join dir n" w] by simp
  show ?case
  proof (cases r)
    case None
    from Cons.IH [of w'] c show ?thesis by (auto simp: r None)
  next
    case (Some err)
    then show ?thesis using c by (simp add: r)
  qed
qed

lemma emptyDirectory_fsCalls:
  "\<exists>l. fsCalls (snd (emptyDirectory dir w)) = fsCalls w @ CallReadDir dir # l"
proof (cases "fst (ReadDir dir w)")
  case (Inl err)
  then show ?thesis by (simp add: emptyDirectory_unfold)
next
  case (Inr names)
  from removeEach_fsCalls [of dir names "w\<lparr>fsCalls := fsCalls w @ [CallReadDir dir]\<rparr>"]
  show ?thesis by (auto simp: emptyDirectory_unfold Inr)
qed

lemma emptyDirectory_files: "set (files (snd (emptyDirectory dir w))) \<subseteq> set (files w)"
proof (cases "fst (ReadDir dir w)")
  case (Inl err)
  then show ?thesis by (simp add: emptyDirectory_unfold)
next
  case (Inr names)
  from removeEach_files [of dir names "w\<lparr>fsCalls := fsCalls w @ [CallReadDir dir]\<rparr>"]
  show ?thesis by (simp add: emptyDirectory_unfold Inr)
qed

lemma truncate_repo_failed:
  "URLPath r = ''/truncate'' \<Longrightarrow> fst (emptyDirectory (repoDir opts) w) = Some err \<Longrightarrow>
   startIndexingApi ps opts r w =
     (logPrintf (LogTruncateRepoDir (repoDir opts) err) (snd (emptyDirectory (repoDir opts) w)),
      [(''Failed to delete repoDir'', 500)])"
  by (cases "emptyDirectory (repoDir opts) w")
     (simp add: startIndexingApi_def serveTruncate_def httpError_def)

lemma truncate_index_failed:
  "URLPath r = ''/truncate'' \<Longrightarrow> fst (emptyDirectory (repoDir opts) w) = None \<Longrightarrow>
   fst (emptyDirectory (indexDir opts) (snd (emptyDirectory (repoDir opts) w))) = Some err \<Longrightarrow>
   startIndexingApi ps opts r w =
     (logPrintf (LogTruncateIndexDir (repoDir opts) err)
        (snd (emptyDirectory (indexDir opts) (snd (emptyDirectory (repoDir opts) w)))),
      [(''Failed to delete indexDir'', 500)])"
  by (cases "emptyDirectory (repoDir opts) w";
      cases "emptyDirectory (indexDir opts) (snd (emptyDirectory (repoDir opts) w))")
     (simp add: startIndexingApi_def serveTruncate_def httpError_def)

lemma truncate_done:
  "URLPath r = ''/truncate'' \<Longrightarrow> fst (emptyDirectory (repoDir opts) w) = None \<Longrightarrow>
   fst (emptyDirectory (indexDir opts) (snd (emptyDirectory (repoDir opts) w))) = None \<Longrightarrow>
   startIndexingApi ps opts r w =
     (snd (emptyDirectory (indexDir opts) (snd (emptyDirectory (repoDir opts) w))), [])"
  by (cases "emptyDirectory (repoDir opts) w";
      cases "emptyDirectory (indexDir opts) (snd (emptyDirectory (repoDir opts) w))")
     (simp add: startIndexingApi_def serveTruncate_def)

text \<open>
  C5. A /truncate request lists the repository directory first. If emptying it fails,
  the response is 500 with \<open>Failed to delete repoDir\<close>, and the file system and the
  trace of file system calls are those the failed \<open>emptyDirectory\<close> left: the index
  directory is not touched. Otherwise the index directory is emptied next; if that fails
  the response is 500 with \<open>Failed to delete indexDir\<close>, if not it is 200 with an empty
  body. In every case the file system that results holds only entries that were there
  before: nothing removed is restored.
\<close>

theorem serveTruncate_order_and_errors:
  assumes "URLPath r = ''/truncate''"
  shows "(\<exists>rest. fsCalls (fst (startIndexingApi ps opts r w)) =
            fsCalls w @ CallReadDir (repoDir opts) # rest) \<and>
         (\<forall>err. fst (emptyDirectory (repoDir opts) w) = Some err \<longrightarrow>
            status (snd (startIndexingApi ps opts r w)) = 500 \<and>
            replyBody (snd (startIndexingApi ps opts r w)) = ''Failed to delete repoDir'' \<and>
            fsCalls (fst (startIndexingApi ps opts r w)) = fsCalls (snd (emptyDirectory (repoDir opts) w)) \<and>
            files (fst (startIndexingApi ps opts r w)) = files (snd (emptyDirectory (repoDir opts) w))) \<and>
         (fst (emptyDirectory (repoDir opts) w) = None \<longrightarrow>
            (\<exists>rest. fsCalls (fst (startIndexingApi ps opts r w)) =
               fsCalls (snd (emptyDirectory (repoDir opts) w)) @ CallReadDir (indexDir opts) # rest) \<and>
            files (fst (startIndexingApi ps opts r w)) =
              files (snd (emptyDirectory (indexDir opts) (snd (emptyDirectory (repoDir opts) w)))) \<and>
            (\<forall>err. fst (emptyDirectory (indexDir opts) (snd (emptyDirectory (repoDir opts) w))) = Some err \<longrightarrow>
               status (snd (startIndexingApi ps opts r w)) = 500 \<and>
               replyBody (snd (startIndexingApi ps opts r w)) = ''Failed to delete indexDir'') \<and>
            (fst (emptyDirectory (indexDir opts) (snd (emptyDirectory (repoDir opts) w))) = None \<longrightarrow>
               status (snd (startIndexingApi ps opts r w)) = 200 \<and>
               replyBody (snd (startIndexingApi ps opts r w)) = [])) \<and>
         set (files (fst (startIndexingApi ps opts r w))) \<subseteq> set (files w)"
proof -
  let ?R = "startIndexingApi ps opts r w"
  let ?E1 = "emptyDirectory (repoDir opts) w"
  let ?E2 = "emptyDirectory (indexDir opts) (snd ?E1)"
  from emptyDirectory_fsCalls [of "repoDir opts" w] obtain l1
    where l1: "fsCalls (snd ?E1) = fsCalls w @ CallReadDir (repoDir opts) # l1" ..
  from emptyDirectory_fsCalls [of "indexDir opts" "snd ?E1"] obtain l2
    where l2: "fsCalls (snd ?E2) = fsCalls (snd ?E1) @ CallReadDir (indexDir opts) # l2" ..
  have s1: "set (files (snd ?E1)) \<subseteq> set (files w)" by (rule emptyDirectory_files)
  have s2: "set (files (snd ?E2)) \<subseteq> set (files w)"
    using emptyDirectory_files [of "indexDir opts" "snd ?E1"] s1 by blast
  show ?thesis
  proof (cases "fst ?E1")
    case (Some err)
    note R = truncate_repo_failed [OF assms Some, of ps]
    show ?thesis
      using l1 s1 by (simp add: R Some status_def replyBody_def logPrintf_def)
  next
    case None
    show ?thesis
    proof (cases "fst ?E2")
      case (Some err)
      note R = truncate_index_failed [OF assms None Some, of ps]
      show ?thesis
        using l1 l2 s2 by (simp add: R None Some status_def replyBody_def logPrintf_def)
    next
      case None2: None
      note R = truncate_done [OF assms None None2, of ps]
      show ?thesis
        using l1 l2 s2 by (simp add: R None None2 status_def replyBody_def)
    qed
  qed
qed

theorem serveTruncate_order_and_errors_witness:
  "status (snd (startIndexingApi quickProgram mountedOptions truncatePost sampleWorld)) = 500 \<and>
   replyBody (snd (startIndexingApi quickProgram mountedOptions truncatePost sampleWorld)) =
     ''Failed to delete repoDir'' \<and>
   fsCalls (fst (startIndexingApi quickProgram mountedOptions truncatePost sampleWorld)) =
     [CallReadDir ''/mnt'', CallRemoveAll ''/mnt/a'', CallRemoveAll ''/mnt/b''] \<and>
   files (fst (startIndexingApi quickProgram mountedOptions truncatePost sampleWorld)) =
     [\<lparr>loc = [''data''], isDir = True, busy = False\<rparr>,
      \<lparr>loc = [''data'', ''b''], isDir = False, busy = False\<rparr>,
      \<lparr>loc = [''data'', ''c''], isDir = True, busy = False\<rparr>,
      \<lparr>loc = [''data'', ''c'', ''d''], isDir = False, busy = False\<rparr>,
      \<lparr>loc = [''data'', ''a''], isDir = False, busy = False\<rparr>,
      \<lparr>loc = [''mnt''], isDir = True, busy = False\<rparr>,
      \<lparr>loc = [''mnt'', ''b''], isDir = True, busy = False\<rparr>,
      \<lparr>loc = [''mnt'', ''b'', ''y''], isDir = True, busy = True\<rparr>,
      \<lparr>loc = [''mnt'', ''c''], isDir = False, busy = False\<rparr>]"
proof -
  have p: "URLPath truncatePost = ''/truncate''" by (simp add: truncatePost_def)
  have e: "fst (emptyDirectory (repoDir mountedOptions) sampleWorld) = Some EBUSY"
    by (simp add: mountedOptions_def sample_mnt_after)
  from serveTruncate_order_and_errors [OF p, where ps = quickProgram and opts = mountedOptions
      and w = sampleWorld] e
  have "status (snd (startIndexingApi quickProgram mountedOptions truncatePost sampleWorld)) = 500 \<and>
     replyBody (snd (startIndexingApi quickProgram mountedOptions truncatePost sampleWorld)) =
       ''Failed to delete repoDir'' \<and>
     fsCalls (fst (startIndexingApi quickProgram mountedOptions truncatePost sampleWorld)) =
       fsCalls (snd (emptyDirectory (repoDir mountedOptions) sampleWorld)) \<and>
     files (fst (startIndexingApi quickProgram mountedOptions truncatePost sampleWorld)) =
       files (snd (emptyDirectory (repoDir mountedOptions) sampleWorld))"
    by blast
  then show ?thesis by (simp add: mountedOptions_def sample_mnt_after)
qed

lemma wellFormed_filter_below:
  assumes "wellFormed fs"
  shows "wellFormed (filter (\<lambda>e. \<not> strict_prefix q (loc e)) fs)"
  unfolding wellFormed_def
proof
  fix e assume e: "e \<in> set (filter (\<lambda>e. \<not> strict_prefix q (loc e)) fs)"
  then have efs: "e \<in> set fs" and keep: "\<not> strict_prefix q (loc e)" by simp_all
  from assms efs have ne: "loc e \<noteq> []" and pl: "\<forall>n \<in> set (loc e). plainName n"
    and par: "isDirAt fs (butlast (loc e))" unfolding wellFormed_def by blast+
  have "prefix (butlast (loc e)) (loc e)" by (rule prefixeq_butlast)
  with keep have "\<not> strict_prefix q (butlast (loc e))"
    by (meson prefix_order.less_le_trans)
  with par have "isDirAt (filter (\<lambda>e. \<not> strict_prefix q (loc e)) fs) (butlast (loc e))"
    by (rule isDirAt_filter_below)
  with ne pl show "loc e \<noteq> [] \<and> (\<forall>n \<in> set (loc e). plainName n) \<and>
      isDirAt (filter (\<lambda>e. \<not> strict_prefix q (loc e)) fs) (butlast (loc e))" by simp
qed

lemma busyBelow_filter_below: "\<not> busyBelow (filter (\<lambda>e. \<not> strict_prefix d (loc e)) fs) d"
  by (simp add: busyBelow_def)

lemma emptyDirectory_None_resolves:
  assumes "fst (emptyDirectory dir w) = None"
  shows "\<exists>d. resolve (files w) (cwd w) dir = Inr d \<and> isDirAt (files w) d"
proof (cases "fst (ReadDir dir w)")
  case (Inl err)
  with assms show ?thesis by (simp add: emptyDirectory_listing_fails)
next
  case (Inr names)
  from ReadDir_Inr [OF Inr] show ?thesis by blast
qed

lemma emptyDirectory_None:
  assumes wf: "wellFormed (files w)" and ok: "fst (emptyDirectory dir w) = None"
    and res: "resolve (files w) (cwd w) dir = Inr d"
    and safe: "IsAbs dir \<or> (\<forall>c. cwd w = Some c \<longrightarrow> \<not> strict_prefix d c)"
  shows "isDirAt (files w) d \<and>
     files (snd (emptyDirectory dir w)) = filter (\<lambda>e. \<not> strict_prefix d (loc e)) (files w) \<and>
     ((\<forall>c. cwd w = Some c \<longrightarrow> \<not> strict_prefix d c) \<longrightarrow> cwd (snd (emptyDirectory dir w)) = cwd w)"
proof -
  from emptyDirectory_None_resolves [OF ok] res have dr: "isDirAt (files w) d" by auto
  have nb: "\<not> busyBelow (files w) d"
  proof
    assume "busyBelow (files w) d"
    from emptyDirectory_files_busy [OF wf res dr this safe] ok show False by simp
  qed
  from emptyDirectory_files_ok [OF wf res dr nb safe]
  have f: "files (snd (emptyDirectory dir w)) = filter (\<lambda>e. \<not> strict_prefix d (loc e)) (files w)"
    by simp
  have c: "(\<forall>c. cwd w = Some c \<longrightarrow> \<not> strict_prefix d c) \<longrightarrow> cwd (snd (emptyDirectory dir w)) = cwd w"
  proof
    assume s: "\<forall>c. cwd w = Some c \<longrightarrow> \<not> strict_prefix d c"
    from emptyDirectory_ok [OF wf res dr nb s] show "cwd (snd (emptyDirectory dir w)) = cwd w" by simp
  qed
  from dr f c show ?thesis by blast
qed

lemma truncate_ok_both:
  assumes p: "URLPath r = ''/truncate''" and st: "status (snd (startIndexingApi ps opts r w)) = 200"
  shows "fst (emptyDirectory (repoDir opts) w) = None \<and>
     fst (emptyDirectory (indexDir opts) (snd (emptyDirectory (repoDir opts) w))) = None"
proof (cases "fst (emptyDirectory (repoDir opts) w)")
  case (Some err)
  from truncate_repo_failed [OF p Some, of ps] st show ?thesis by (simp add: status_def)
next
  case None
  show ?thesis
  proof (cases "fst (emptyDirectory (indexDir opts) (snd (emptyDirectory (repoDir opts) w)))")
    case (Some err)
    from truncate_index_failed [OF p None Some, of ps] st show ?thesis by (simp add: status_def)
  next
    case None2: None
    with None show ?thesis by simp
  qed
qed

text \<open>
  C8, as amended. In a well-formed file system (which has no symbolic links), when no
  place on the way of the two configured paths, the two directories themselves included,
  lies strictly inside the repository directory or the index directory: after a
  /truncate request that succeeded, a second /truncate request succeeds as well, with an
  empty body, and leaves the file system as it is. The condition holds whenever neither
  path has a \<open>..\<close> element and neither directory lies strictly inside the other (lemma
  \<open>plain_paths_clear\<close>), as in the default layout (lemma \<open>default_layout_clear\<close>).
\<close>

theorem truncate_twice:
  assumes wf: "wellFormed (files w)"
    and p: "URLPath r = ''/truncate''" and p': "URLPath r' = ''/truncate''"
    and first: "status (snd (startIndexingApi ps opts r w)) = 200"
    and clear: "\<forall>i d. resolve (files w) (cwd w) (indexDir opts) = Inr i \<and>
                  resolve (files w) (cwd w) (repoDir opts) = Inr d \<longrightarrow>
                  (\<forall>x \<in> set (passes (cwd w) (repoDir opts)) \<union> set (passes (cwd w) (indexDir opts)).
                     \<not> strict_prefix d x \<and> \<not> strict_prefix i x)"
  shows "status (snd (startIndexingApi ps' opts r' (fst (startIndexingApi ps opts r w)))) = 200 \<and>
         replyBody (snd (startIndexingApi ps' opts r' (fst (startIndexingApi ps opts r w)))) = [] \<and>
         files (fst (startIndexingApi ps' opts r' (fst (startIndexingApi ps opts r w)))) =
           files (fst (startIndexingApi ps opts r w))"
proof -
  let ?R = "repoDir opts" and ?I = "indexDir opts"
  let ?E1 = "emptyDirectory ?R w"
  let ?w1 = "snd ?E1"
  let ?E2 = "emptyDirectory ?I ?w1"
  let ?w2 = "snd ?E2"
  from truncate_ok_both [OF p first] have n1: "fst ?E1 = None" and n2: "fst ?E2 = None" by simp_all
  from emptyDirectory_None_resolves [OF n1] obtain d
    where rd: "resolve (files w) (cwd w) ?R = Inr d" by blast
  from emptyDirectory_None_resolves [OF n2] obtain i
    where ri1: "resolve (files ?w1) (cwd ?w1) ?I = Inr i" by blast
  have ri: "resolve (files w) (cwd w) ?I = Inr i"
  proof -
    have b: "resolve (files w) (cwd ?w1) ?I = Inr i"
      using ri1 emptyDirectory_files [of ?R w] by (rule resolve_before)
    show ?thesis
    proof (cases "IsAbs ?I")
      case True
      from resolve_abs [OF True, of "files w" "cwd w" "cwd ?w1"] b show ?thesis by simp
    next
      case False
      with resolve_start [OF ri1] obtain c where "cwd ?w1 = Some c" by blast
      with emptyDirectory_cwd [OF this] b show ?thesis by simp
    qed
  qed
  from clear ri rd
  have K: "\<And>x. x \<in> set (passes (cwd w) ?R) \<union> set (passes (cwd w) ?I) \<Longrightarrow>
      \<not> strict_prefix d x \<and> \<not> strict_prefix i x" by blast
  have stay: "cwd w = Some c \<and> \<not> strict_prefix d c \<and> \<not> strict_prefix i c"
    if "cwd ?w1 = Some c \<or> cwd w = Some c" and "\<not> IsAbs ?R \<or> \<not> IsAbs ?I" for c
  proof -
    from that(1) emptyDirectory_cwd [of ?R w c] have c: "cwd w = Some c" by blast
    from that(2) resolve_passes(2) [OF rd] resolve_passes(2) [OF ri] c
    have "c \<in> set (passes (cwd w) ?R) \<union> set (passes (cwd w) ?I)" by auto
    from K [OF this] c show ?thesis by simp
  qed
  have s1: "IsAbs ?R \<or> (\<forall>c. cwd w = Some c \<longrightarrow> \<not> strict_prefix d c)"
    using stay by blast
  from emptyDirectory_None [OF wf n1 rd s1]
  have dd: "isDirAt (files w) d"
    and f1: "files ?w1 = filter (\<lambda>e. \<not> strict_prefix d (loc e)) (files w)"
    and c1: "(\<forall>c. cwd w = Some c \<longrightarrow> \<not> strict_prefix d c) \<longrightarrow> cwd ?w1 = cwd w"
    by simp_all
  have wf1: "wellFormed (files ?w1)" unfolding f1 using wf by (rule wellFormed_filter_below)
  have s2: "IsAbs ?I \<or> (\<forall>c. cwd ?w1 = Some c \<longrightarrow> \<not> strict_prefix i c)"
    using stay by blast
  from emptyDirectory_None [OF wf1 n2 ri1 s2]
  have di1: "isDirAt (files ?w1) i"
    and f2: "files ?w2 = filter (\<lambda>e. \<not> strict_prefix i (loc e)) (files ?w1)"
    and c2: "(\<forall>c. cwd ?w1 = Some c \<longrightarrow> \<not> strict_prefix i c) \<longrightarrow> cwd ?w2 = cwd ?w1"
    by simp_all
  have cw: "cwd ?w2 = cwd w" if rel: "\<not> IsAbs ?R \<or> \<not> IsAbs ?I"
  proof -
    from rel resolve_passes(2) [OF rd] resolve_passes(2) [OF ri]
    obtain c where c: "cwd w = Some c" by blast
    from stay [of c] c rel have "\<not> strict_prefix d c" and "\<not> strict_prefix i c" by simp_all
    with c c1 c2 show ?thesis by simp
  qed
  have R1: "startIndexingApi ps opts r w = (?w2, [])" by (rule truncate_done [OF p n1 n2])
  have f2k: "files ?w2 =
      filter (\<lambda>e. \<not> strict_prefix d (loc e) \<and> \<not> strict_prefix i (loc e)) (files w)"
    by (simp add: f2 f1 conj_commute)
  have rd2: "resolve (files ?w2) (cwd ?w2) ?R = Inr d"
  proof -
    have a: "resolve (files ?w2) (cwd w) ?R = Inr d"
      unfolding f2k using rd
    proof (rule resolve_after [where K = "\<lambda>x. \<not> strict_prefix d x \<and> \<not> strict_prefix i x"])
      fix x assume "x \<in> set (passes (cwd w) ?R)"
      then show "\<not> strict_prefix d x \<and> \<not> strict_prefix i x" using K by simp
    qed
    show ?thesis
    proof (cases "IsAbs ?R")
      case True
      from resolve_abs [OF True, of "files ?w2" "cwd ?w2" "cwd w"] a show ?thesis by simp
    next
      case False
      with cw a show ?thesis by simp
    qed
  qed
  have ri2: "resolve (files ?w2) (cwd ?w2) ?I = Inr i"
  proof -
    have a: "resolve (files ?w2) (cwd w) ?I = Inr i"
      unfolding f2k using ri
    proof (rule resolve_after [where K = "\<lambda>x. \<not> strict_prefix d x \<and> \<not> strict_prefix i x"])
      fix x assume "x \<in> set (passes (cwd w) ?I)"
      then show "\<not> strict_prefix d x \<and> \<not> strict_prefix i x" using K by simp
    qed
    show ?thesis
    proof (cases "IsAbs ?I")
      case True
      from resolve_abs [OF True, of "files ?w2" "cwd ?w2" "cwd w"] a show ?thesis by simp
    next
      case False
      with cw a show ?thesis by simp
    qed
  qed
  from K resolve_passes(1) [OF rd] have na: "\<not> strict_prefix i d" by simp
  have dd2: "isDirAt (files ?w2) d"
    unfolding f2k using dd
    by (rule isDirAt_filter [where K = "\<lambda>x. \<not> strict_prefix d x \<and> \<not> strict_prefix i x"])
       (simp add: na)
  have e2: "childNames (files ?w2) d = []"
    by (rule childNames_none_below) (simp add: f2k)
  let ?w3 = "?w2\<lparr>fsCalls := fsCalls ?w2 @ [CallReadDir ?R]\<rparr>"
  have E3: "emptyDirectory ?R ?w2 = (None, ?w3)"
    by (rule emptyDirectory_empty [OF rd2 dd2 e2])
  have ri3: "resolve (files ?w3) (cwd ?w3) ?I = Inr i" using ri2 by simp
  have di3: "isDirAt (files ?w3) i"
    using isDirAt_filter [OF di1, where K = "\<lambda>x. \<not> strict_prefix i x"] by (simp add: f2)
  have e3: "childNames (files ?w3) i = []"
    by (rule childNames_none_below) (simp add: f2)
  have E4: "emptyDirectory ?I ?w3 = (None, ?w3\<lparr>fsCalls := fsCalls ?w3 @ [CallReadDir ?I]\<rparr>)"
    by (rule emptyDirectory_empty [OF ri3 di3 e3])
  have n3: "fst (emptyDirectory ?R ?w2) = None" by (simp add: E3)
  have n4: "fst (emptyDirectory ?I (snd (emptyDirectory ?R ?w2))) = None" by (simp add: E3 E4)
  have R2: "startIndexingApi ps' opts r' ?w2 =
      (snd (emptyDirectory ?I (snd (emptyDirectory ?R ?w2))), [])"
    by (rule truncate_done [OF p' n3 n4])
  show ?thesis by (simp add: R1 R2 E3 E4 status_def replyBody_def)
qed

lemma default_wellFormed: "wellFormed (files defaultWorld)"
  unfolding defaultWorld_def by code_simp

lemma default_first:
  "status (snd (startIndexingApi quickProgram defaultOptions truncatePost defaultWorld)) = 200 \<and>
   files (fst (startIndexingApi quickProgram defaultOptions truncatePost defaultWorld)) =
     [\<lparr>loc = [''data''], isDir = True, busy = False\<rparr>,
      \<lparr>loc = [''data'', ''repos''], isDir = True, busy = False\<rparr>,
      \<lparr>loc = [''data'', ''index''], isDir = True, busy = False\<rparr>]"
  unfolding defaultWorld_def defaultOptions_def truncatePost_def by code_simp

lemma default_apart:
  "resolve (files defaultWorld) (cwd defaultWorld) (indexDir defaultOptions) = Inr [''data'', ''index''] \<and>
   resolve (files defaultWorld) (cwd defaultWorld) (repoDir defaultOptions) = Inr [''data'', ''repos''] \<and>
   (\<forall>x \<in> set (passes (cwd defaultWorld) (repoDir defaultOptions)) \<union>
          set (passes (cwd defaultWorld) (indexDir defaultOptions)).
      \<not> strict_prefix [''data'', ''repos''] x \<and> \<not> strict_prefix [''data'', ''index''] x)"
  unfolding defaultWorld_def defaultOptions_def by code_simp

theorem truncate_twice_witness:
  "status (snd (startIndexingApi quickProgram defaultOptions truncatePost defaultWorld)) = 200 \<and>
   status (snd (startIndexingApi quickProgram defaultOptions truncatePost
     (fst (startIndexingApi quickProgram defaultOptions truncatePost defaultWorld)))) = 200 \<and>
   files (fst (startIndexingApi quickProgram defaultOptions truncatePost
     (fst (startIndexingApi quickProgram defaultOptions truncatePost defaultWorld)))) =
     [\<lparr>loc = [''data''], isDir = True, busy = False\<rparr>,
      \<lparr>loc = [''data'', ''repos''], isDir = True, busy = False\<rparr>,
      \<lparr>loc = [''data'', ''index''], isDir = True, busy = False\<rparr>]"
proof -
  have p: "URLPath truncatePost = ''/truncate''" by (simp add: truncatePost_def)
  have first: "status (snd (startIndexingApi quickProgram defaultOptions truncatePost defaultWorld)) = 200"
    using default_first by simp
  have clear: "\<forall>i d. resolve (files defaultWorld) (cwd defaultWorld) (indexDir defaultOptions) = Inr i \<and>
      resolve (files defaultWorld) (cwd defaultWorld) (repoDir defaultOptions) = Inr d \<longrightarrow>
      (\<forall>x \<in> set (passes (cwd defaultWorld) (repoDir defaultOptions)) \<union>
             set (passes (cwd defaultWorld) (indexDir defaultOptions)).
         \<not> strict_prefix d x \<and> \<not> strict_prefix i x)"
    using default_apart by simp
  from truncate_twice [OF default_wellFormed p p first clear, of quickProgram] default_first
  show ?thesis by simp
qed

theorem method_not_inspected_witness:
  "status (snd (startIndexingApi quickProgram defaultOptions (truncatePost\<lparr>Method := ''GET''\<rparr>)
      defaultWorld)) = 200 \<and>
   files (fst (startIndexingApi quickProgram defaultOptions (truncatePost\<lparr>Method := ''GET''\<rparr>)
      defaultWorld)) =
     [\<lparr>loc = [''data''], isDir = True, busy = False\<rparr>,
      \<lparr>loc = [''data'', ''repos''], isDir = True, busy = False\<rparr>,
      \<lparr>loc = [''data'', ''index''], isDir = True, busy = False\<rparr>]"
  using method_not_inspected [where ps = quickProgram and opts = defaultOptions and r = truncatePost
      and m = "''GET''" and w = defaultWorld]
    default_first
  by simp

text \<open>
  The default layout, \<open>{dataDir}/repos\<close> beside \<open>{dataDir}/index\<close>, keeps the two
  directories apart; the flags can set the index directory anywhere.
\<close>

lemma lexical_Join_Some:
  assumes "a \<noteq> []" and "lexical wd (Join a n) = Some q"
  shows "\<exists>x. lexical wd a = Some x"
proof (cases "IsAbs a \<or> wd \<noteq> None")
  case True
  with assms(1) show ?thesis by (auto simp: lexical_def)
next
  case False
  then have "\<not> IsAbs (a @ CHR ''/'' # n)" using assms(1) by (cases a) (auto simp: IsAbs_def)
  from IsAbs_Clean_relative [OF this] assms(1) have "Join a n \<noteq> [] \<and> \<not> IsAbs (Join a n)"
    by (simp add: Join_def)
  with False assms(2) show ?thesis by (simp add: lexical_def)
qed

lemma default_layout_apart:
  assumes po: "parseOptions fl = Some opts" and dflt: "index_dir fl = []"
    and wf: "wellFormed fs"
    and ri: "resolve fs wd (indexDir opts) = Inr i" and rd: "resolve fs wd (repoDir opts) = Inr d"
  shows "\<not> strict_prefix i d \<and> \<not> strict_prefix d i"
proof -
  from resolve_lexical [OF wf ri] resolve_lexical [OF wf rd]
  have li: "lexical wd (indexDir opts) = Some i" and ld: "lexical wd (repoDir opts) = Some d"
    by simp_all
  from po have dd: "data_dir fl \<noteq> []" by (auto simp: parseOptions_def split: if_splits)
  from po dflt dd have io: "indexDir opts = Join (data_dir fl) ''index''"
    and ro: "repoDir opts = Join (data_dir fl) ''repos''"
    by (auto simp: parseOptions_def Let_def)
  from lexical_Join_Some [OF dd ld [unfolded ro]] obtain x where x: "lexical wd (data_dir fl) = Some x" ..
  have "plainName ''index''" "plainName ''repos''" by (simp_all add: plainName_def)
  with lexical_Join [OF x] li ld have "i = x @ [''index'']" "d = x @ [''repos'']"
    by (simp_all add: io ro)
  then show ?thesis by (simp add: strict_prefix_def)
qed

lemma Join_abs_fields:
  assumes a: "IsAbs a" and n: "plainName n"
  shows "pathFields (Join a n) = [] # foldl (pathStep True) [] (pathFields a) @ [n]"
proof -
  from a have ne: "a \<noteq> []" by (auto simp: IsAbs_def)
  let ?s = "a @ CHR ''/'' # n"
  let ?d = "foldl (pathStep True) [] (pathFields a)"
  have fs: "pathFields ?s = pathFields a @ [n]"
    using n by (simp add: pathFields_append_slash pathFields_plain plainName_def)
  have abs: "IsAbs ?s" using a ne by (cases a) (auto simp: IsAbs_def)
  have cs: "foldl (pathStep True) [] (pathFields ?s) = ?d @ [n]"
    using n by (simp add: fs pathStep_plain plainName_def)
  have nosl: "\<forall>x \<in> set (?d @ [n]). CHR ''/'' \<notin> set x"
    using foldl_pathStep_no_slash [of "[]" "pathFields a" True] n
    by (auto simp: plainName_def pathFields_no_slash)
  have cl: "Join a n = CHR ''/'' # joinSep (?d @ [n])"
    using ne abs by (simp add: Join_def Clean_def cs Let_def)
  have "pathFields (joinSep (?d @ [n])) = ?d @ [n]" using nosl by (intro pathFields_joinSep) auto
  then show ?thesis by (simp add: cl)
qed

lemma Join_abs_plain: "IsAbs a \<Longrightarrow> plainName n \<Longrightarrow> ''..'' \<notin> set (pathFields (Join a n))"
proof -
  assume a: "IsAbs a" and n: "plainName n"
  have "\<forall>x \<in> set (foldl (pathStep True) [] (pathFields a)). proper x"
    by (rule foldl_pathStep_True_proper) simp
  with n show ?thesis by (auto simp: Join_abs_fields [OF a n] proper_def plainName_def)
qed

lemma Join_rel_fields:
  assumes a: "\<not> IsAbs a" and ne: "a \<noteq> []" and n: "plainName n"
  shows "pathFields (Join a n) = foldl (pathStep False) [] (pathFields a) @ [n]"
proof -
  let ?s = "a @ CHR ''/'' # n"
  let ?X = "foldl (pathStep False) [] (pathFields a)"
  have fs: "pathFields ?s = pathFields a @ [n]"
    using n by (simp add: pathFields_append_slash pathFields_plain plainName_def)
  have abs: "\<not> IsAbs ?s" using a ne by (cases a) (auto simp: IsAbs_def)
  have cs: "foldl (pathStep False) [] (pathFields ?s) = ?X @ [n]"
    using n by (simp add: fs pathStep_plain plainName_def)
  have kp: "\<forall>x \<in> set (?X @ [n]). kept x \<and> CHR ''/'' \<notin> set x"
    using foldl_pathStep_kept [of "[]" False "pathFields a"]
      foldl_pathStep_no_slash [of "[]" "pathFields a" False] n
    by (auto simp: plainName_def kept_def pathFields_no_slash)
  have cl: "Join a n = joinSep (?X @ [n])"
    using ne abs by (simp add: Join_def Clean_def cs Let_def)
  show ?thesis unfolding cl using kp by (intro pathFields_joinSep) auto
qed

lemma foldl_pathStep_subset: "set (foldl (pathStep r) [] cs) \<subseteq> set cs"
proof -
  have "set (foldl (pathStep r) [] cs) \<subseteq> set [] \<union> set cs"
  proof (rule foldl_invariant [where P = "\<lambda>st. set st \<subseteq> set [] \<union> set cs"])
    show "set [] \<subseteq> set [] \<union> set cs" by simp
  next
    fix s c assume "set s \<subseteq> set [] \<union> set cs" and "c \<in> set cs"
    then show "set (pathStep r s c) \<subseteq> set [] \<union> set cs"
      using pathStep_subset [of r s c] by auto
  qed
  then show ?thesis by simp
qed

lemma Join_plain:
  assumes "IsAbs a \<or> (a \<noteq> [] \<and> ''..'' \<notin> set (pathFields a))" and n: "plainName n"
  shows "''..'' \<notin> set (pathFields (Join a n))"
proof (cases "IsAbs a")
  case True
  then show ?thesis using n by (rule Join_abs_plain)
next
  case False
  with assms(1) have ne: "a \<noteq> []" and nd: "''..'' \<notin> set (pathFields a)" by simp_all
  from foldl_pathStep_subset [of False "pathFields a"] nd
  have "''..'' \<notin> set (foldl (pathStep False) [] (pathFields a))" by blast
  with n show ?thesis by (auto simp: Join_rel_fields [OF False ne n] plainName_def)
qed

lemma default_layout_plain:
  assumes po: "parseOptions fl = Some opts" and dflt: "index_dir fl = []"
    and a: "IsAbs (data_dir fl) \<or> ''..'' \<notin> set (pathFields (data_dir fl))"
  shows "''..'' \<notin> set (pathFields (repoDir opts)) \<and> ''..'' \<notin> set (pathFields (indexDir opts))"
proof -
  from po have dd: "data_dir fl \<noteq> []" by (auto simp: parseOptions_def split: if_splits)
  from po dflt dd have io: "indexDir opts = Join (data_dir fl) ''index''"
    and ro: "repoDir opts = Join (data_dir fl) ''repos''"
    by (auto simp: parseOptions_def Let_def)
  have "plainName ''index''" "plainName ''repos''" by (simp_all add: plainName_def)
  moreover have "IsAbs (data_dir fl) \<or> (data_dir fl \<noteq> [] \<and> ''..'' \<notin> set (pathFields (data_dir fl)))"
    using a dd by blast
  ultimately show ?thesis using Join_plain by (simp add: io ro)
qed

lemma plain_passes:
  assumes "resolve fs wd p = Inr d" and "''..'' \<notin> set (pathFields p)"
  shows "\<forall>x \<in> set (passes wd p). \<not> strict_prefix d x"
proof
  fix x assume "x \<in> set (passes wd p)"
  from passes_between [OF assms this] show "\<not> strict_prefix d x"
    by (auto simp: strict_prefix_def)
qed

lemma plain_paths_clear:
  assumes rd: "resolve fs wd R = Inr d" and ri: "resolve fs wd I = Inr i"
    and nR: "''..'' \<notin> set (pathFields R)" and nI: "''..'' \<notin> set (pathFields I)"
    and a1: "\<not> strict_prefix i d" and a2: "\<not> strict_prefix d i"
  shows "\<forall>x \<in> set (passes wd R) \<union> set (passes wd I). \<not> strict_prefix d x \<and> \<not> strict_prefix i x"
proof
  fix x assume "x \<in> set (passes wd R) \<union> set (passes wd I)"
  then consider "x \<in> set (passes wd R)" | "x \<in> set (passes wd I)" by blast
  then show "\<not> strict_prefix d x \<and> \<not> strict_prefix i x"
  proof cases
    case 1
    from passes_between [OF rd nR 1] have px: "prefix x d" .
    have "\<not> strict_prefix i x"
    proof
      assume "strict_prefix i x"
      from this px have "strict_prefix i d" by (rule prefix_order.less_le_trans)
      with a1 show False ..
    qed
    with px show ?thesis by (auto simp: strict_prefix_def)
  next
    case 2
    from passes_between [OF ri nI 2] have px: "prefix x i" .
    have "\<not> strict_prefix d x"
    proof
      assume "strict_prefix d x"
      from this px have "strict_prefix d i" by (rule prefix_order.less_le_trans)
      with a2 show False ..
    qed
    with px show ?thesis by (auto simp: strict_prefix_def)
  qed
qed

lemma default_layout_clear:
  assumes po: "parseOptions fl = Some opts" and dflt: "index_dir fl = []"
    and a: "IsAbs (data_dir fl) \<or> ''..'' \<notin> set (pathFields (data_dir fl))"
    and wf: "wellFormed fs"
    and ri: "resolve fs wd (indexDir opts) = Inr i" and rd: "resolve fs wd (repoDir opts) = Inr d"
  shows "\<forall>x \<in> set (passes wd (repoDir opts)) \<union> set (passes wd (indexDir opts)).
           \<not> strict_prefix d x \<and> \<not> strict_prefix i x"
  using default_layout_plain [OF po dflt a] default_layout_apart [OF po dflt wf ri rd]
  by (intro plain_paths_clear [OF rd ri]) simp_all

lemma nested_from_flags:
  "parseOptions \<lparr>data_dir = ''/data'', index_dir = ''/data'', index_timeout = 3600000000000,
     listen_addr = '':6060''\<rparr> = Some nestedOptions"
  unfolding nestedOptions_def by code_simp

lemma default_from_flags:
  "parseOptions \<lparr>data_dir = ''/data'', index_dir = [], index_timeout = 3600000000000,
     listen_addr = '':6060''\<rparr> = Some defaultOptions"
  unfolding defaultOptions_def by code_simp

lemma nested_truncations:
  "wellFormed (files nestedWorld) \<and>
   status (snd (startIndexingApi quickProgram nestedOptions truncatePost nestedWorld)) = 200 \<and>
   status (snd (startIndexingApi quickProgram nestedOptions truncatePost
     (fst (startIndexingApi quickProgram nestedOptions truncatePost nestedWorld)))) = 500 \<and>
   replyBody (snd (startIndexingApi quickProgram nestedOptions truncatePost
     (fst (startIndexingApi quickProgram nestedOptions truncatePost nestedWorld)))) =
     ''Failed to delete repoDir''"
  unfolding nestedWorld_def nestedOptions_def truncatePost_def by code_simp

lemma crossing_from_flags:
  "parseOptions \<lparr>data_dir = ''/data'', index_dir = ''/data/index/sub/..'', index_timeout = 3600000000000,
     listen_addr = '':6060''\<rparr> = Some crossingOptions"
  unfolding crossingOptions_def by code_simp

text \<open>
  A \<open>..\<close> element that crosses a child of the directory: the index directory is given
  as \<open>/data/index/sub/..\<close>. The first /truncate empties \<open>/data/index\<close> and with it removes
  \<open>sub\<close>; after that the path leads nowhere, and the second /truncate answers 500.
\<close>

lemma crossing_truncations:
  "wellFormed (files crossingWorld) \<and>
   resolve (files crossingWorld) (cwd crossingWorld) (indexDir crossingOptions) = Inr [''data'', ''index''] \<and>
   resolve (files crossingWorld) (cwd crossingWorld) (repoDir crossingOptions) = Inr [''data'', ''repos''] \<and>
   status (snd (startIndexingApi quickProgram crossingOptions truncatePost crossingWorld)) = 200 \<and>
   files (fst (startIndexingApi quickProgram crossingOptions truncatePost crossingWorld)) =
     [\<lparr>loc = [''data''], isDir = True, busy = False\<rparr>,
      \<lparr>loc = [''data'', ''repos''], isDir = True, busy = False\<rparr>,
      \<lparr>loc = [''data'', ''index''], isDir = True, busy = False\<rparr>] \<and>
   status (snd (startIndexingApi quickProgram crossingOptions truncatePost
     (fst (startIndexingApi quickProgram crossingOptions truncatePost crossingWorld)))) = 500 \<and>
   replyBody (snd (startIndexingApi quickProgram crossingOptions truncatePost
     (fst (startIndexingApi quickProgram crossingOptions truncatePost crossingWorld)))) =
     ''Failed to delete indexDir''"
  unfolding crossingWorld_def crossingOptions_def truncatePost_def by code_simp

text \<open>
  C8 as stated fails, in two ways. With the index directory set to the data directory,
  the repository directory lies inside it: the first /truncate succeeds and removes the
  repository directory itself, so the second cannot list it and answers 500. With the
  index directory given as \<open>/data/index/sub/..\<close>, the path crosses a child of the
  directory it leads to: the first /truncate succeeds and removes that child, so the
  second cannot list the index directory and answers 500.
\<close>

theorem truncate_twice_fails:
  "parseOptions \<lparr>data_dir = ''/data'', index_dir = ''/data'', index_timeout = 3600000000000,
     listen_addr = '':6060''\<rparr> = Some nestedOptions \<and>
   wellFormed (files nestedWorld) \<and>
   status (snd (startIndexingApi quickProgram nestedOptions truncatePost nestedWorld)) = 200 \<and>
   status (snd (startIndexingApi quickProgram nestedOptions truncatePost
     (fst (startIndexingApi quickProgram nestedOptions truncatePost nestedWorld)))) = 500 \<and>
   replyBody (snd (startIndexingApi quickProgram nestedOptions truncatePost
     (fst (startIndexingApi quickProgram nestedOptions truncatePost nestedWorld)))) =
     ''Failed to delete repoDir'' \<and>
   parseOptions \<lparr>data_dir = ''/data'', index_dir = ''/data/index/sub/..'', index_timeout = 3600000000000,
     listen_addr = '':6060''\<rparr> = Some crossingOptions \<and>
   wellFormed (files crossingWorld) \<and>
   status (snd (startIndexingApi quickProgram crossingOptions truncatePost crossingWorld)) = 200 \<and>
   status (snd (startIndexingApi quickProgram crossingOptions truncatePost
     (fst (startIndexingApi quickProgram crossingOptions truncatePost crossingWorld)))) = 500 \<and>
   replyBody (snd (startIndexingApi quickProgram crossingOptions truncatePost
     (fst (startIndexingApi quickProgram crossingOptions truncatePost crossingWorld)))) =
     ''Failed to delete indexDir''"
  using nested_from_flags nested_truncations crossing_from_flags crossing_truncations by simp

section \<open>The deadline of a pipeline run\<close>

lemma Run_spawned:
  "\<exists>started. spawned (snd (Run ps cmd w)) = spawned w @ started \<and>
     (\<forall>s \<in> set started. snd s < deadline (cmdCtx cmd))"
  by (simp add: Run_def Let_def)

lemma Run_clock:
  "clock w \<le> clock (snd (Run ps cmd w)) \<and>
   clock (snd (Run ps cmd w)) \<le> max (clock w) (deadline (cmdCtx cmd))"
  by (simp add: Run_def Let_def)

lemma Run_done:
  "deadline (cmdCtx cmd) \<le> clock w \<Longrightarrow>
   spawned (snd (Run ps cmd w)) = spawned w \<and> clock (snd (Run ps cmd w)) = clock w"
  by (simp add: Run_def Let_def)

lemma loggedRun_spawned_clock:
  "spawned (snd (loggedRun ps cmd w)) = spawned (snd (Run ps cmd (logPrintf (LogRun (Args cmd)) w))) \<and>
   clock (snd (loggedRun ps cmd w)) = clock (snd (Run ps cmd (logPrintf (LogRun (Args cmd)) w)))"
proof -
  define w1 where "w1 = logPrintf (LogRun (Args cmd)) w"
  obtain err out errOut w2 where R: "Run ps cmd w1 = ((err, out, errOut), w2)"
    by (metis prod.exhaust)
  have "spawned (snd (loggedRun ps cmd w)) = spawned (snd (Run ps cmd w1)) \<and>
      clock (snd (loggedRun ps cmd w)) = clock (snd (Run ps cmd w1))"
    unfolding loggedRun_def Let_def w1_def [symmetric] R
    by (cases err) (simp_all add: logPrintf_def)
  then show ?thesis by (simp only: w1_def)
qed

lemma executeCmd_spawned_clock:
  "spawned (executeCmd ps c name arg w) =
     spawned (snd (Run ps (CommandContext c name arg)
       (logPrintf (LogRun (name # arg)) (w\<lparr>calls := calls w @ [CommandContext c name arg]\<rparr>)))) \<and>
   clock (executeCmd ps c name arg w) =
     clock (snd (Run ps (CommandContext c name arg)
       (logPrintf (LogRun (name # arg)) (w\<lparr>calls := calls w @ [CommandContext c name arg]\<rparr>))))"
  using loggedRun_spawned_clock [of ps "CommandContext c name arg"
      "w\<lparr>calls := calls w @ [CommandContext c name arg]\<rparr>"]
  by (simp add: executeCmd_def Let_def CommandContext_def)

lemma executeCmd_spawned:
  "\<exists>started. spawned (executeCmd ps c name arg w) = spawned w @ started \<and>
     (\<forall>s \<in> set started. snd s < deadline c)"
  using Run_spawned [of ps "CommandContext c name arg"
      "logPrintf (LogRun (name # arg)) (w\<lparr>calls := calls w @ [CommandContext c name arg]\<rparr>)"]
  unfolding executeCmd_spawned_clock [THEN conjunct1]
  by (simp add: logPrintf_def CommandContext_def)

lemma executeCmd_clock:
  "clock w \<le> clock (executeCmd ps c name arg w) \<and>
   clock (executeCmd ps c name arg w) \<le> max (clock w) (deadline c)"
  using Run_clock [of "logPrintf (LogRun (name # arg)) (w\<lparr>calls := calls w @ [CommandContext c name arg]\<rparr>)"
      ps "CommandContext c name arg"]
  unfolding executeCmd_spawned_clock [THEN conjunct2]
  by (simp add: logPrintf_def CommandContext_def)

lemma executeCmd_done:
  "deadline c \<le> clock w \<Longrightarrow>
   spawned (executeCmd ps c name arg w) = spawned w \<and> clock (executeCmd ps c name arg w) = clock w"
  using Run_done [of "CommandContext c name arg"
      "logPrintf (LogRun (name # arg)) (w\<lparr>calls := calls w @ [CommandContext c name arg]\<rparr>)" ps]
  unfolding executeCmd_spawned_clock [THEN conjunct1] executeCmd_spawned_clock [THEN conjunct2]
  by (simp add: logPrintf_def CommandContext_def)

lemma within_trans:
  assumes "within D w w1" and "within D w1 w2"
  shows "within D w w2"
proof -
  from assms(1) obtain s1 where s1: "spawned w1 = spawned w @ s1" "\<forall>s \<in> set s1. snd s < D"
    and c1: "clock w \<le> clock w1" "clock w1 \<le> max (clock w) D" unfolding within_def by blast
  from assms(2) obtain s2 where s2: "spawned w2 = spawned w1 @ s2" "\<forall>s \<in> set s2. snd s < D"
    and c2: "clock w1 \<le> clock w2" "clock w2 \<le> max (clock w1) D" unfolding within_def by blast
  have "spawned w2 = spawned w @ (s1 @ s2)" using s1(1) s2(1) by simp
  moreover have "\<forall>s \<in> set (s1 @ s2). snd s < D" using s1(2) s2(2) by auto
  moreover have "clock w \<le> clock w2" using c1(1) c2(1) by simp
  moreover have "clock w2 \<le> max (clock w) D" using c1(2) c2(2) by simp
  ultimately show ?thesis unfolding within_def by blast
qed

lemma within_executeCmd: "within (deadline c) w (executeCmd ps c name arg w)"
  unfolding within_def using executeCmd_spawned [of ps c name arg w] executeCmd_clock [of w ps c name arg]
  by blast

lemma within_logPrintf: "within D w w' \<Longrightarrow> within D w (logPrintf l w')"
  by (simp add: within_def logPrintf_def)

lemma indexRepository_within:
  "within (clock w + indexTimeout opts) w (fst (indexRepository ps opts req w rw))"
proof -
  let ?c = "WithTimeout (clock w) (indexTimeout opts)"
  let ?D = "clock w + indexTimeout opts"
  have D: "deadline ?c = ?D" by (simp add: WithTimeout_def)
  let ?w1 = "executeCmd ps ?c ''zoekt-git-clone'' ([] @ [''-dest'', repoDir opts]
                    @ [''-name'', FormatUint (unat (RepoID req))]
                    @ [''-repoid'', FormatUint (unat (RepoID req))]
                    @ [CloneURL req]) w"
  have w1: "within ?D w ?w1" using within_executeCmd [of ?c w ps] by (simp only: D)
  show ?thesis
  proof (cases "Abs (cwd ?w1) (Join (repoDir opts) (gitDirName req))")
    case (Inl err)
    then have "fst (indexRepository ps opts req w rw) = logPrintf (LogRepoPathError err) ?w1"
      by (simp add: indexRepository_def Let_def)
    with w1 show ?thesis by (simp add: within_logPrintf)
  next
    case (Inr p)
    let ?w2 = "executeCmd ps ?c ''git'' [''-C'', p, ''fetch''] ?w1"
    let ?w3 = "executeCmd ps ?c ''zoekt-git-index'' [''-index'', indexDir opts, p] ?w2"
    have w2: "within ?D ?w1 ?w2" using within_executeCmd [of ?c ?w1 ps] by (simp only: D)
    have w3: "within ?D ?w2 ?w3" using within_executeCmd [of ?c ?w2 ps] by (simp only: D)
    from Inr have "fst (indexRepository ps opts req w rw) = ?w3"
      by (simp add: indexRepository_def Let_def)
    with within_trans [OF within_trans [OF w1 w2] w3] show ?thesis by simp
  qed
qed

lemma indexRepository_contexts:
  "\<forall>c \<in> set (drop (length (calls w)) (calls (fst (indexRepository ps opts req w rw)))).
     cmdCtx c = WithTimeout (clock w) (indexTimeout opts)"
  by (cases "Abs (cwd w) (Join (repoDir opts) (gitDirName req))")
     (simp_all add: indexRepository_def Let_def executeCmd_calls executeCmd_cwd CommandContext_def
       logPrintf_def)

text \<open>
  C7. Every command of one run of \<open>indexRepository\<close> is handed over under the one scope
  made at entry, whose deadline is the entry time plus \<open>indexTimeout\<close>; every
  subprocess the run starts is started strictly before that deadline, and the run ends
  no later than the deadline (or at once, if the deadline had passed at entry): the
  budget is shared by the stages and never renewed. A command handed to \<open>executeCmd\<close>
  under a scope whose deadline has passed is recorded as handed over, but no subprocess
  is started and no time passes.
\<close>

theorem pipeline_under_one_deadline:
  "(\<forall>c \<in> set (drop (length (calls w)) (calls (fst (indexRepository ps opts req w rw)))).
      cmdCtx c = WithTimeout (clock w) (indexTimeout opts) \<and>
      deadline (cmdCtx c) = clock w + indexTimeout opts) \<and>
   (\<exists>started. spawned (fst (indexRepository ps opts req w rw)) = spawned w @ started \<and>
      (\<forall>s \<in> set started. snd s < clock w + indexTimeout opts)) \<and>
   clock w \<le> clock (fst (indexRepository ps opts req w rw)) \<and>
   clock (fst (indexRepository ps opts req w rw)) \<le> max (clock w) (clock w + indexTimeout opts) \<and>
   (\<forall>c name arg v. deadline c \<le> clock v \<longrightarrow>
      spawned (executeCmd ps c name arg v) = spawned v \<and>
      clock (executeCmd ps c name arg v) = clock v \<and>
      calls (executeCmd ps c name arg v) = calls v @ [CommandContext c name arg])"
proof -
  have a: "\<forall>c \<in> set (drop (length (calls w)) (calls (fst (indexRepository ps opts req w rw)))).
      cmdCtx c = WithTimeout (clock w) (indexTimeout opts) \<and>
      deadline (cmdCtx c) = clock w + indexTimeout opts"
    using indexRepository_contexts [of w ps opts req rw] by (simp add: WithTimeout_def)
  have b: "within (clock w + indexTimeout opts) w (fst (indexRepository ps opts req w rw))"
    by (rule indexRepository_within)
  have c: "\<forall>c name arg v. deadline c \<le> clock v \<longrightarrow>
      spawned (executeCmd ps c name arg v) = spawned v \<and>
      clock (executeCmd ps c name arg v) = clock v \<and>
      calls (executeCmd ps c name arg v) = calls v @ [CommandContext c name arg]"
    using executeCmd_done executeCmd_calls by blast
  from a b c show ?thesis unfolding within_def by blast
qed

lemma slow_run:
  "spawned (fst (indexRepository slowProgram shortOptions exampleRequest bootWorld [])) =
     [([''zoekt-git-clone'', ''-dest'', ''/repo_dir'', ''-name'', ''100'', ''-repoid'', ''100'',
        ''https://example.com/repository.git''], 0),
      ([''git'', ''-C'', ''/repo_dir/100.git'', ''fetch''], 5)] \<and>
   clock (fst (indexRepository slowProgram shortOptions exampleRequest bootWorld [])) = 7 \<and>
   map Args (calls (fst (indexRepository slowProgram shortOptions exampleRequest bootWorld []))) =
     [[''zoekt-git-clone'', ''-dest'', ''/repo_dir'', ''-name'', ''100'', ''-repoid'', ''100'',
        ''https://example.com/repository.git''],
      [''git'', ''-C'', ''/repo_dir/100.git'', ''fetch''],
      [''zoekt-git-index'', ''-index'', ''/index_dir'', ''/repo_dir/100.git'']] \<and>
   map (\<lambda>c. deadline (cmdCtx c)) (calls (fst (indexRepository slowProgram shortOptions exampleRequest bootWorld []))) =
     [7, 7, 7]"
  unfolding slowProgram_def shortOptions_def exampleRequest_def bootWorld_def by code_simp

theorem pipeline_under_one_deadline_witness:
  "list_all (\<lambda>c. deadline (cmdCtx c) = 7)
     (calls (fst (indexRepository slowProgram shortOptions exampleRequest bootWorld []))) \<and>
   length (calls (fst (indexRepository slowProgram shortOptions exampleRequest bootWorld []))) = 3 \<and>
   map snd (spawned (fst (indexRepository slowProgram shortOptions exampleRequest bootWorld []))) = [0, 5] \<and>
   clock (fst (indexRepository slowProgram shortOptions exampleRequest bootWorld [])) \<le> 7 \<and>
   spawned (executeCmd slowProgram \<lparr>deadline = 7\<rparr> ''zoekt-git-index''
     [''-index'', ''/index_dir'', ''/repo_dir/100.git''] (bootWorld\<lparr>clock := 7\<rparr>)) = []"
proof -
  let ?W = "fst (indexRepository slowProgram shortOptions exampleRequest bootWorld [])"
  note t = pipeline_under_one_deadline [where ps = slowProgram and opts = shortOptions
      and req = exampleRequest and w = bootWorld and rw = "[]"]
  have z: "clock bootWorld = 0" "indexTimeout shortOptions = 7" "calls bootWorld = []"
    "spawned bootWorld = []"
    by (simp_all add: bootWorld_def shortOptions_def)
  from t have "\<forall>c \<in> set (drop (length (calls bootWorld)) (calls ?W)).
      deadline (cmdCtx c) = clock bootWorld + indexTimeout shortOptions" by blast
  then have a: "list_all (\<lambda>c. deadline (cmdCtx c) = 7) (calls ?W)"
    by (simp add: z list_all_iff)
  from t have "clock ?W \<le> max (clock bootWorld) (clock bootWorld + indexTimeout shortOptions)"
    by blast
  then have b: "clock ?W \<le> 7" by (simp add: z)
  have "deadline \<lparr>deadline = 7\<rparr> \<le> clock (bootWorld\<lparr>clock := 7\<rparr>)" by simp
  with t have "spawned (executeCmd slowProgram \<lparr>deadline = 7\<rparr> ''zoekt-git-index''
     [''-index'', ''/index_dir'', ''/repo_dir/100.git''] (bootWorld\<lparr>clock := 7\<rparr>)) =
     spawned (bootWorld\<lparr>clock := 7\<rparr>)" by blast
  then have c: "spawned (executeCmd slowProgram \<lparr>deadline = 7\<rparr> ''zoekt-git-index''
     [''-index'', ''/index_dir'', ''/repo_dir/100.git''] (bootWorld\<lparr>clock := 7\<rparr>)) = []"
    by (simp add: z)
  from slow_run have d: "length (map Args (calls ?W)) = 3" by simp
  from slow_run have e: "map snd (spawned ?W) = [0, 5]" by simp
  from a b c d e show ?thesis by simp
qed

end
